theory Spec2Isabelle
  imports Main "HOL-Library.Sublist" "HOL-Library.Word"
begin

section \<open>Python text operations used by the patch scripts\<close>

text \<open>
  A buffer is the text of a file as the scripts hold it in memory. Characters are the
  bytes of the UTF-8 encoding the scripts declare (\<open>encoding='utf-8'\<close>); every anchor
  of the scripts is ASCII, so matching on bytes and on code points agree.
  Python's \<open>sub in s\<close> is \<^const>\<open>sublist\<close> of \<open>HOL-Library.Sublist\<close>, and
  \<open>s.startswith(p)\<close> is \<^const>\<open>prefix\<close>.
\<close>

subsection \<open>\<open>str.replace\<close>, \<open>str.split\<close>, \<open>str.join\<close>, \<open>readlines\<close>\<close>

text \<open>
  \<open>s.replace(old, new)\<close> rewrites every non-overlapping occurrence of \<open>old\<close>,
  scanning from the left. With an empty \<open>old\<close> Python inserts \<open>new\<close> before every
  character and at the end.
\<close>

function str_replace :: "string \<Rightarrow> string \<Rightarrow> string \<Rightarrow> string" where
  "str_replace old new [] = (if old = [] then new else [])"
| "str_replace old new (c # cs) =
     (if old = [] then new @ c # str_replace old new cs
      else if prefix old (c # cs) then new @ str_replace old new (drop (length old) (c # cs))
      else c # str_replace old new cs)"
  by pat_completeness auto
termination
  by (relation "measure (\<lambda>(old, new, s). length s)") auto

text \<open>\<open>s.split('\n')\<close>: the pieces between the separators; never an empty list.\<close>

fun split_on :: "char \<Rightarrow> string \<Rightarrow> string list" where
  "split_on d [] = [[]]"
| "split_on d (c # cs) =
     (if c = d then [] # split_on d cs
      else (case split_on d cs of [] \<Rightarrow> [[c]] | l # ls \<Rightarrow> (c # l) # ls))"

text \<open>\<open>sep.join(lines)\<close>.\<close>

fun join :: "string \<Rightarrow> string list \<Rightarrow> string" where
  "join sep [] = []"
| "join sep [l] = l"
| "join sep (l # ls) = l @ sep @ join sep ls"

text \<open>
  \<open>f.readlines()\<close> on a file opened in text mode: the lines of the buffer, each with
  its terminating \<open>\n\<close>; the last line has none when the buffer does not end in one.
\<close>

fun readlines :: "string \<Rightarrow> string list" where
  "readlines [] = []"
| "readlines (c # cs) =
     (if c = CHR ''\<newline>'' then [c] # readlines cs
      else (case readlines cs of [] \<Rightarrow> [[c]] | l # ls \<Rightarrow> (c # l) # ls))"

subsection \<open>Regular expressions: the fragment the scripts use\<close>

text \<open>
  Every pattern of the scripts is a sequence of literal text (characters escaped with
  a backslash stand for themselves), the lazy wildcard \<open>.*?\<close> (any characters but a
  newline; any characters at all under \<open>re.DOTALL\<close>) and \<open>[\s\S]*?\<close> (any
  characters). A lazy wildcard first tries to match nothing and takes one more
  character each time the rest of the pattern fails, as Python's backtracking
  matcher does. \<open>rx_match\<close> returns the text left after the match.
\<close>

datatype rx = Lit string | DotLazy | AnyLazy

fun rx_match :: "rx list \<Rightarrow> string \<Rightarrow> string option" where
  "rx_match [] s = Some s"
| "rx_match (Lit l # rs) s = (if prefix l s then rx_match rs (drop (length l) s) else None)"
| "rx_match (DotLazy # rs) s =
     (case rx_match rs s of
        Some t \<Rightarrow> Some t
      | None \<Rightarrow>
          (case s of
             [] \<Rightarrow> None
           | c # cs \<Rightarrow> if c = CHR ''\<newline>'' then None else rx_match (DotLazy # rs) cs))"
| "rx_match (AnyLazy # rs) s =
     (case rx_match rs s of
        Some t \<Rightarrow> Some t
      | None \<Rightarrow> (case s of [] \<Rightarrow> None | c # cs \<Rightarrow> rx_match (AnyLazy # rs) cs))"

text \<open>
  \<open>re.sub(pattern, repl, s)\<close>: scanning from the left, every match is replaced by
  \<open>repl\<close> applied to the matched text (a constant function for a plain replacement
  string, \<open>\<lambda>m. t @ m\<close> for the template \<open>t + r'\1'\<close> whose group is the whole
  pattern), and scanning resumes after the match. Every pattern of the scripts starts
  with literal text, so a match is never empty (\<open>rx_match_Lit_shorter\<close> below); the
  scan treats an empty match as no match.
\<close>

function re_sub :: "rx list \<Rightarrow> (string \<Rightarrow> string) \<Rightarrow> string \<Rightarrow> string" where
  "re_sub rs repl [] = []"
| "re_sub rs repl (c # cs) =
     (case rx_match rs (c # cs) of
        None \<Rightarrow> c # re_sub rs repl cs
      | Some t \<Rightarrow>
          if length t < length (c # cs)
          then repl (take (length (c # cs) - length t) (c # cs)) @ re_sub rs repl t
          else c # re_sub rs repl cs)"
  by pat_completeness auto
termination
  by (relation "measure (\<lambda>(rs, repl, s). length s)") auto

section \<open>The patch scripts\<close>

subsection \<open>\<open>apply_platform_refactor.py\<close>: the buffer transformations\<close>

definition platform_import :: string where
  \<open>platform_import = ''use super::platform;''\<close>

text \<open>\<open>update_cli_runner\<close>, edit 1: the import is added after its anchor, with no guard.\<close>

definition cli_import_old :: string where
  \<open>cli_import_old = ''use super::config::get_claude_execution_config;''\<close>

definition cli_import_new :: string where
  \<open>cli_import_new = (''use super::config::get_claude_execution_config;\<newline>'' @
                           ''use super::platform;'')\<close>

text \<open>Edit 2: the calls of the wrapper.\<close>

definition cli_call_old :: string where
  \<open>cli_call_old = ''resolve_cmd_wrapper_tokio(program)''\<close>

definition cli_call_new :: string where
  \<open>cli_call_new = ''platform::resolve_cmd_wrapper(program)''\<close>

text \<open>Edit 3: the two definitions of the wrapper are deleted.\<close>

definition cli_wrapper_pattern :: "rx list" where
  \<open>cli_wrapper_pattern =
     [Lit ''/// Windows-specific: Resolve .cmd wrapper'',
      DotLazy,
      Lit (''\<newline>'' @
           ''#[cfg(target_os = "windows")]\<newline>'' @
           ''fn resolve_cmd_wrapper_tokio(cmd_path: &str) -> Option<(String, String)> {''),
      AnyLazy,
      Lit (''    None\<newline>'' @
           ''}\<newline>'' @
           ''\<newline>'' @
           ''#[cfg(not(target_os = "windows"))]\<newline>'' @
           ''fn resolve_cmd_wrapper_tokio(_cmd_path: &str) -> Option<(String, String)> {\<newline>'' @
           ''    None\<newline>'' @
           ''}\<newline>'')]\<close>

text \<open>Edit 4: the creation flags.\<close>

definition cli_flags_old :: string where
  \<open>cli_flags_old =
     (''    // On Windows, ensure the command runs without creating a console window\<newline>'' @
      ''    #[cfg(target_os = "windows")]\<newline>'' @
      ''    cmd.creation_flags(0x08000000); // CREATE_NO_WINDOW'')\<close>

definition cli_flags_new :: string where
  \<open>cli_flags_new =
     (''    // Apply platform-specific no-window configuration\<newline>'' @
      ''    platform::apply_no_window_async(&mut cmd);'')\<close>

definition update_cli_runner_content :: "string \<Rightarrow> string" where
  "update_cli_runner_content content0 =
     (let content1 = str_replace cli_import_old cli_import_new content0;
          content2 = str_replace cli_call_old cli_call_new content1;
          content3 = re_sub cli_wrapper_pattern (\<lambda>_. []) content2;
          content4 = re_sub [Lit cli_flags_old] (\<lambda>_. cli_flags_new) content3
      in content4)"

text \<open>\<open>update_config\<close>: the import is added unless the buffer already has it.\<close>

definition paths_import_old :: string where
  \<open>paths_import_old = ''use super::paths::get_claude_dir;''\<close>

definition paths_import_new :: string where
  \<open>paths_import_new = (''use super::paths::get_claude_dir;\<newline>'' @
                             ''use super::platform;'')\<close>

definition config_flags_old :: string where
  \<open>config_flags_old = ''        cmd.creation_flags(0x08000000); // CREATE_NO_WINDOW''\<close>

definition config_flags_new :: string where
  \<open>config_flags_new = ''        platform::apply_no_window(&mut cmd);''\<close>

definition update_config_content :: "string \<Rightarrow> string" where
  "update_config_content content0 =
     (let content1 = (if \<not> sublist platform_import content0
                      then str_replace paths_import_old paths_import_new content0
                      else content0);
          content2 = re_sub [Lit config_flags_old] (\<lambda>_. config_flags_new) content1
      in content2)"

text \<open>\<open>update_hooks\<close>.\<close>

definition hooks_flags_old :: string where
  \<open>hooks_flags_old =
     (''    // Add CREATE_NO_WINDOW flag on Windows to prevent terminal window popup\<newline>'' @
      ''    #[cfg(target_os = "windows")]\<newline>'' @
      ''    {\<newline>'' @
      ''        cmd.creation_flags(0x08000000); // CREATE_NO_WINDOW\<newline>'' @
      ''    }'')\<close>

definition hooks_flags_new :: string where
  \<open>hooks_flags_new =
     (''    // Apply platform-specific no-window configuration\<newline>'' @
      ''    platform::apply_no_window(&mut cmd);'')\<close>

definition update_hooks_content :: "string \<Rightarrow> string" where
  "update_hooks_content content0 =
     (let content1 = (if \<not> sublist platform_import content0
                      then str_replace paths_import_old paths_import_new content0
                      else content0);
          content2 = re_sub [Lit hooks_flags_old] (\<lambda>_. hooks_flags_new) content1
      in content2)"

text \<open>
  \<open>update_prompt_enhancer\<close>: the import goes after the first line that starts with
  \<open>use super::\<close> (the loop stops at the first such line).
\<close>

fun insert_platform_import :: "string list \<Rightarrow> string list" where
  "insert_platform_import [] = []"
| "insert_platform_import (line # lines) =
     (if prefix ''use super::'' line
      then line # ''use super::platform;'' # lines
      else line # insert_platform_import lines)"

definition enhancer_command_old :: string where
  \<open>enhancer_command_old = ''        command.creation_flags(0x08000000); // CREATE_NO_WINDOW flag''\<close>

definition enhancer_command_new :: string where
  \<open>enhancer_command_new = ''        platform::apply_no_window(&mut command);''\<close>

definition enhancer_cmd_old :: string where
  \<open>enhancer_cmd_old = ''            cmd.creation_flags(0x08000000); // CREATE_NO_WINDOW flag''\<close>

definition enhancer_cmd_new :: string where
  \<open>enhancer_cmd_new = ''            platform::apply_no_window(&mut cmd);''\<close>

definition enhancer_npm_old :: string where
  \<open>enhancer_npm_old = ''        npm_cmd.creation_flags(0x08000000); // CREATE_NO_WINDOW flag''\<close>

definition enhancer_npm_new :: string where
  \<open>enhancer_npm_new = ''        platform::apply_no_window(&mut npm_cmd);''\<close>

definition update_prompt_enhancer_content :: "string \<Rightarrow> string" where
  "update_prompt_enhancer_content content0 =
     (let content1 = (if \<not> sublist platform_import content0
                      then join ''\<newline>'' (insert_platform_import (split_on CHR ''\<newline>'' content0))
                      else content0);
          content2 = re_sub [Lit enhancer_command_old] (\<lambda>_. enhancer_command_new) content1;
          content3 = re_sub [Lit enhancer_cmd_old] (\<lambda>_. enhancer_cmd_new) content2;
          content4 = re_sub [Lit enhancer_npm_old] (\<lambda>_. enhancer_npm_new) content3
      in content4)"

text \<open>\<open>update_mod\<close>; its pattern is compiled with \<open>re.DOTALL\<close>.\<close>

definition mod_decl_old :: string where
  \<open>mod_decl_old = ''mod session_history;''\<close>

definition mod_decl_new :: string where
  \<open>mod_decl_new = (''mod session_history;\<newline>'' @
                         ''mod platform;\<newline>'' @
                         ''mod file_ops;'')\<close>

definition mod_export_old :: string where
  \<open>mod_export_old = ''use self::project_store::ProjectStore;''\<close>

definition mod_export_new :: string where
  \<open>mod_export_new =
     (''use self::project_store::ProjectStore;\<newline>'' @
      ''pub use file_ops::{list_directory_contents, search_files};'')\<close>

definition mod_wrapper_pattern :: "rx list" where
  \<open>mod_wrapper_pattern =
     [Lit ''/// Finds the full path to the claude binary'',
      AnyLazy,
      Lit (''\<newline>'' @
           ''fn find_claude_binary(app_handle: &AppHandle) -> Result<String, String> {\<newline>'' @
           ''    crate::claude_binary::find_claude_binary(app_handle)\<newline>'' @
           ''}\<newline>'')]\<close>

definition update_mod_content :: "string \<Rightarrow> string" where
  "update_mod_content content0 =
     (let content1 = (if \<not> sublist ''mod platform;'' content0
                      then str_replace mod_decl_old mod_decl_new content0
                      else content0);
          content2 = str_replace mod_export_old mod_export_new content1;
          content3 = re_sub mod_wrapper_pattern (\<lambda>_. []) content2
      in content3)"

subsection \<open>\<open>fix_mutex.py\<close>: the line-block replacement\<close>

definition new_block :: string where
  \<open>new_block =
     (''        // First, collect all process IDs (lock released immediately)\<newline>'' @
      ''        let run_ids: Vec<i64> = {\<newline>'' @
      ''            let processes = processes_lock.lock().map_err(|e| e.to_string())?;\<newline>'' @
      ''            processes.keys().cloned().collect()\<newline>'' @
      ''        }; // '' @
      [CHR 0xE2, CHR 0x9C, CHR 0x85] @
      '' Lock is released here, before any await points\<newline>'' @
      ''\<newline>'' @
      ''        // Then check each process (no lock held during async operations)\<newline>'' @
      ''        for run_id in run_ids {\<newline>'' @
      ''            if !self.is_process_running(run_id).await? {\<newline>'' @
      ''                finished_runs.push(run_id);\<newline>'' @
      ''            }\<newline>'' @
      ''        }\<newline>'' @
      ''\<newline>'')\<close>

text \<open>
  \<open>lines[:628] + [new_block] + lines[640:]\<close>, written back with \<open>writelines\<close>
  (which concatenates): Python slices past the end of a list give what is there.
\<close>

definition fix_mutex_content :: "string \<Rightarrow> string" where
  "fix_mutex_content content =
     (let lines = readlines content;
          output_lines = take 628 lines @ [new_block] @ drop 640 lines
      in concat output_lines)"

subsection \<open>\<open>fix_utf8.py\<close>: the buffer transformations\<close>



definition claude_insert_pattern :: "rx list" where
  \<open>claude_insert_pattern =
     [Lit (''\<newline>'' @
           ''\<newline>'' @
           ''/// Enhance a prompt using local Claude  Code CLI\<newline>'' @
           ''#[tauri::command]\<newline>'' @
           ''pub async fn enhance_prompt('')]\<close>

definition trimmed_prompt_old :: string where
  \<open>trimmed_prompt_old = ''&trimmed_prompt[..MAX_PROMPT_LENGTH]''\<close>

definition trimmed_prompt_new :: string where
  \<open>trimmed_prompt_new = ''truncate_utf8_safe(trimmed_prompt, MAX_PROMPT_LENGTH)''\<close>

definition context_str_old :: string where
  \<open>context_str_old = ''&context_str[..MAX_CONTEXT_LENGTH]''\<close>

definition context_str_new :: string where
  \<open>context_str_new = ''truncate_utf8_safe(&context_str, MAX_CONTEXT_LENGTH)''\<close>

text \<open>The four slice rewrites, each a \<open>re.sub\<close> of an escaped literal.\<close>

definition fix_trimmed_prompt :: "string \<Rightarrow> string" where
  "fix_trimmed_prompt content = re_sub [Lit trimmed_prompt_old] (\<lambda>_. trimmed_prompt_new) content"

definition fix_context_str :: "string \<Rightarrow> string" where
  "fix_context_str content = re_sub [Lit context_str_old] (\<lambda>_. context_str_new) content"


definition acemcp_insert_pattern :: "rx list" where
  \<open>acemcp_insert_pattern =
     [Lit (''\<newline>'' @
           ''#[tauri::command]\<newline>'' @
           ''pub async fn enhance_prompt_with_context('')]\<close>

definition context_result_old :: string where
  \<open>context_result_old = ''&context_result[..max_length]''\<close>

definition context_result_new :: string where
  \<open>context_result_new = ''truncate_utf8_safe(&context_result, max_length)''\<close>

definition trimmed_context_old :: string where
  \<open>trimmed_context_old = ''&trimmed_context[..available_space]''\<close>

definition trimmed_context_new :: string where
  \<open>trimmed_context_new = ''truncate_utf8_safe(&trimmed_context, available_space)''\<close>

definition fix_context_result :: "string \<Rightarrow> string" where
  "fix_context_result content = re_sub [Lit context_result_old] (\<lambda>_. context_result_new) content"

definition fix_trimmed_context :: "string \<Rightarrow> string" where
  "fix_trimmed_context content = re_sub [Lit trimmed_context_old] (\<lambda>_. trimmed_context_new) content"


section \<open>Well-formed UTF-8\<close>

text \<open>
  A byte is a \<open>u8\<close>. \<open>utf8_valid\<close> is the table of well-formed byte sequences of the
  Unicode standard, as \<open>run_utf8_validation\<close> of Rust's \<open>core::str\<close> checks it with
  \<open>UTF8_CHAR_WIDTH\<close>: the width of a character is read off its first byte, the second
  byte of a three- or four-byte character is restricted so that no overlong form, no
  surrogate and nothing beyond U+10FFFF passes, and the other bytes are continuation
  bytes. Python's strict \<open>utf-8\<close> codec accepts exactly the same sequences.
\<close>

type_synonym byte = "8 word"
type_synonym str = "byte list"


definition utf8_char_width :: "byte \<Rightarrow> nat" where
  "utf8_char_width b =
     (if b < 0x80 then 1 else if b < 0xC2 then 0 else if b < 0xE0 then 2
      else if b < 0xF0 then 3 else if b < 0xF5 then 4 else 0)"

definition is_cont :: "byte \<Rightarrow> bool" where
  "is_cont b = (0x80 \<le> b \<and> b \<le> 0xBF)"

definition second3 :: "byte \<Rightarrow> byte \<Rightarrow> bool" where
  "second3 a b =
     ((a = 0xE0 \<and> 0xA0 \<le> b \<and> b \<le> 0xBF) \<or>
      (0xE1 \<le> a \<and> a \<le> 0xEC \<and> 0x80 \<le> b \<and> b \<le> 0xBF) \<or>
      (a = 0xED \<and> 0x80 \<le> b \<and> b \<le> 0x9F) \<or>
      (0xEE \<le> a \<and> a \<le> 0xEF \<and> 0x80 \<le> b \<and> b \<le> 0xBF))"

definition second4 :: "byte \<Rightarrow> byte \<Rightarrow> bool" where
  "second4 a b =
     ((a = 0xF0 \<and> 0x90 \<le> b \<and> b \<le> 0xBF) \<or>
      (0xF1 \<le> a \<and> a \<le> 0xF3 \<and> 0x80 \<le> b \<and> b \<le> 0xBF) \<or>
      (a = 0xF4 \<and> 0x80 \<le> b \<and> b \<le> 0x8F))"

fun char_ok :: "str \<Rightarrow> bool" where
  "char_ok [a] = (a < 0x80)"
| "char_ok [a, b] = (0xC2 \<le> a \<and> a \<le> 0xDF \<and> is_cont b)"
| "char_ok [a, b, c] = (second3 a b \<and> is_cont c)"
| "char_ok [a, b, c, d] = (second4 a b \<and> is_cont c \<and> is_cont d)"
| "char_ok _ = False"

function utf8_valid :: "str \<Rightarrow> bool" where
  "utf8_valid [] = True"
| "utf8_valid (first # rest) =
     (let w = utf8_char_width first in
      if w = 0 \<or> Suc (length rest) < w then False
      else char_ok (take w (first # rest)) \<and> utf8_valid (drop w (first # rest)))"
  by pat_completeness auto
termination
  by (relation "measure length") auto

text \<open>The bytes of a stored file decode under \<open>encoding='utf-8'\<close>.\<close>

definition decodable :: "string \<Rightarrow> bool" where
  "decodable stored = utf8_valid (map of_char stored)"

section \<open>Files, output and exceptions\<close>

text \<open>
  The scripts see the world through \<open>open\<close>, \<open>print\<close> and \<open>os\<close>. A world holds
  \<^item> the stored bytes of every file that exists, by the path handed to \<open>open\<close>;
  \<^item> what the operating system answers when it refuses to open a path for reading
    or for writing (permission denied, a directory in the way, ...);
  \<^item> the platform, which fixes \<open>os.linesep\<close> and the separator of \<open>os.path.join\<close>;
  \<^item> the texts that standard output cannot encode (\<open>print\<close> raises on them), and the
    message a codec gives about data it cannot convert;
  \<^item> what was printed (one entry for each \<open>print\<close>), and the paths written, in order.

  The error stream (the traceback of the handlers) is left out; it replaces what it
  cannot encode and does not raise. A write that fails half way (a full disk) is not
  modelled.
\<close>

datatype platform = Posix | Windows

fun os_linesep :: "platform \<Rightarrow> string" where
  "os_linesep Posix = ''\<newline>''"
| "os_linesep Windows = [CHR 0x0D, CHR ''\<newline>'']"

fun os_sep :: "platform \<Rightarrow> string" where
  "os_sep Posix = ''/''"
| "os_sep Windows = [CHR 0x5C]"

text \<open>
  An exception, as far as the handlers look at it: every one is an \<open>Exception\<close>, and
  the handlers print \<open>str(e)\<close>. \<open>OSError\<close> and the codec errors carry their message.
\<close>

datatype exn =
  FileNotFoundError string
| OSError string
| UnicodeDecodeError string
| UnicodeEncodeError string

record world =
  files :: "string \<rightharpoonup> string"
  refuse_read :: "string \<Rightarrow> exn option"
  refuse_write :: "string \<Rightarrow> exn option"
  os :: platform
  stdout_rejects :: "string \<Rightarrow> bool"
  codec_says :: "string \<Rightarrow> string"
  stdout :: "string list"
  written :: "string list"



text \<open>
  The files are opened in text mode with the default \<open>newline=None\<close>: on reading,
  \<open>\r\n\<close> and a lone \<open>\r\<close> become \<open>\n\<close>; on writing, every \<open>\n\<close> becomes \<open>os.linesep\<close>.
\<close>

fun universal_newlines :: "string \<Rightarrow> string" where
  "universal_newlines [] = []"
| "universal_newlines [c] = (if c = CHR 0x0D then [CHR ''\<newline>''] else [c])"
| "universal_newlines (c # d # cs) =
     (if c = CHR 0x0D \<and> d = CHR ''\<newline>'' then CHR ''\<newline>'' # universal_newlines cs
      else if c = CHR 0x0D then CHR ''\<newline>'' # universal_newlines (d # cs)
      else c # universal_newlines (d # cs))"

definition write_newlines :: "string \<Rightarrow> string \<Rightarrow> string" where
  "write_newlines sep s = concat (map (\<lambda>c. if c = CHR ''\<newline>'' then sep else [c]) s)"

text \<open>
  \<open>with open(path, 'r', encoding='utf-8') as f: content = f.read()\<close>: \<open>open\<close> raises
  when the operating system refuses or the file does not exist, \<open>read\<close> raises when
  the bytes are not UTF-8. Nothing is changed in any of these cases.
\<close>

definition read_file :: "string \<Rightarrow> world \<Rightarrow> exn + string" where
  "read_file path w =
     (case refuse_read w path of
        Some e \<Rightarrow> Inl e
      | None \<Rightarrow>
          (case files w path of
             None \<Rightarrow> Inl (FileNotFoundError path)
           | Some stored \<Rightarrow>
               if decodable stored then Inr (universal_newlines stored)
               else Inl (UnicodeDecodeError (codec_says w stored))))"

text \<open>
  A job either completes (\<open>None\<close>) or raises (\<open>Some e\<close>); in both cases it leaves a
  world behind. \<open>run_seq\<close> is a sequence of statements: the first exception ends it.
\<close>

type_synonym job = "world \<Rightarrow> exn option \<times> world"

fun run_seq :: "job list \<Rightarrow> world \<Rightarrow> exn option \<times> world" where
  "run_seq [] w = (None, w)"
| "run_seq (j # js) w =
     (case j w of
        (Some e, w') \<Rightarrow> (Some e, w')
      | (None, w') \<Rightarrow> run_seq js w')"

text \<open>
  \<open>with open(path, 'w', encoding='utf-8') as f: f.write(content)\<close>: \<open>open\<close> raises,
  before it touches the file, when the operating system refuses.
\<close>

definition write_file :: "string \<Rightarrow> string \<Rightarrow> job" where
  "write_file path content w =
     (case refuse_write w path of
        Some e \<Rightarrow> (Some e, w)
      | None \<Rightarrow>
          (None, w\<lparr>files := (files w)(path \<mapsto> write_newlines (os_linesep (os w)) content),
                   written := written w @ [path]\<rparr>))"

text \<open>\<open>print(line)\<close>: raises, and prints nothing, when standard output cannot encode the text.\<close>

definition print :: "string \<Rightarrow> job" where
  "print line w =
     (if stdout_rejects w line then (Some (UnicodeEncodeError (codec_says w line)), w)
      else (None, w\<lparr>stdout := stdout w @ [line]\<rparr>))"

subsection \<open>\<open>apply_platform_refactor.py\<close>: the jobs and the main block\<close>

definition BASE_DIR :: string where
  \<open>BASE_DIR = ''src-tauri/src/commands/claude''\<close>

text \<open>
  \<open>os.path.join\<close> of a directory that does not end in a separator and a relative file
  name, as the scripts call it: the platform's separator goes between them.
\<close>

definition path_join :: "platform \<Rightarrow> string \<Rightarrow> string \<Rightarrow> string" where
  "path_join p dir name = dir @ os_sep p @ name"

definition update_cli_runner :: job where
  "update_cli_runner w =
     (let filepath = path_join (os w) BASE_DIR ''cli_runner.rs'' in
      case read_file filepath w of
        Inl e \<Rightarrow> (Some e, w)
      | Inr content \<Rightarrow>
          run_seq [write_file filepath (update_cli_runner_content content),
                   print ''Updated cli_runner.rs''] w)"

definition update_config :: job where
  "update_config w =
     (let filepath = path_join (os w) BASE_DIR ''config.rs'' in
      case read_file filepath w of
        Inl e \<Rightarrow> (Some e, w)
      | Inr content \<Rightarrow>
          run_seq [write_file filepath (update_config_content content),
                   print ''Updated config.rs''] w)"

definition update_hooks :: job where
  "update_hooks w =
     (let filepath = path_join (os w) BASE_DIR ''hooks.rs'' in
      case read_file filepath w of
        Inl e \<Rightarrow> (Some e, w)
      | Inr content \<Rightarrow>
          run_seq [write_file filepath (update_hooks_content content),
                   print ''Updated hooks.rs''] w)"

definition update_prompt_enhancer :: job where
  "update_prompt_enhancer w =
     (let filepath = path_join (os w) BASE_DIR ''prompt_enhancer.rs'' in
      case read_file filepath w of
        Inl e \<Rightarrow> (Some e, w)
      | Inr content \<Rightarrow>
          run_seq [write_file filepath (update_prompt_enhancer_content content),
                   print ''Updated prompt_enhancer.rs''] w)"

definition update_mod :: job where
  "update_mod w =
     (let filepath = path_join (os w) BASE_DIR ''mod.rs'' in
      case read_file filepath w of
        Inl e \<Rightarrow> (Some e, w)
      | Inr content \<Rightarrow>
          run_seq [write_file filepath (update_mod_content content),
                   print ''Updated mod.rs''] w)"

text \<open>
  The main block. The \<open>try\<close> holds the five jobs and the closing prints; the handler
  (\<open>except Exception as e\<close>) prints the error and the script runs off its end. The
  first component is the exit status of the process: 0 when the script ends normally,
  1 when an exception escapes, which here only the handler's own \<open>print\<close> can cause.
  No path of the block calls \<open>sys.exit\<close>.
\<close>

definition refactor_jobs :: "job list" where
  "refactor_jobs =
     [update_cli_runner, update_config, update_hooks, update_prompt_enhancer, update_mod]"




subsection \<open>\<open>fix_utf8.py\<close>: the jobs and the main block\<close>








subsection \<open>\<open>fix_mutex.py\<close>: the script\<close>




subsection \<open>Overlap of two texts\<close>

text \<open>
  \<open>overlap a b\<close>: a non-empty end of \<open>a\<close> is a beginning of \<open>b\<close>. Two texts are
  independent when neither overlaps the other and neither occurs in the other: an
  occurrence of one then shares no position with an occurrence of the other.
\<close>

fun overlap :: "string \<Rightarrow> string \<Rightarrow> bool" where
  "overlap [] b = False"
| "overlap (x # xs) b = (prefix (x # xs) b \<or> overlap xs b)"

definition independent :: "string \<Rightarrow> string \<Rightarrow> bool" where
  "independent a b = (\<not> overlap a b \<and> \<not> overlap b a \<and> \<not> sublist a b \<and> \<not> sublist b a)"

text \<open>A line as \<open>readlines\<close> delivers it before the last one: it ends in its only newline.\<close>

definition line_ok :: "string \<Rightarrow> bool" where
  "line_ok l = (l \<noteq> [] \<and> last l = CHR ''\<newline>'' \<and> CHR ''\<newline>'' \<notin> set (butlast l))"

subsection \<open>Notions used to state the properties of the jobs\<close>

text \<open>
  The five jobs of \<open>apply_platform_refactor.py\<close> have one shape: read the file,
  transform the buffer, write it back, print a line.
\<close>

definition patch_job :: "string \<Rightarrow> (string \<Rightarrow> string) \<Rightarrow> string \<Rightarrow> job" where
  "patch_job filepath f line w =
     (case read_file filepath w of
        Inl e \<Rightarrow> (Some e, w)
      | Inr content \<Rightarrow> run_seq [write_file filepath (f content), print line] w)"

text \<open>
  The job on \<open>path\<close> meets the I/O error \<open>e\<close> in the world \<open>w\<close>: the file cannot be
  opened, read or decoded, or it cannot be opened for writing.
\<close>

definition io_error :: "string \<Rightarrow> world \<Rightarrow> exn \<Rightarrow> bool" where
  "io_error path w e =
     (case read_file path w of
        Inl e' \<Rightarrow> e' = e
      | Inr content \<Rightarrow> refuse_write w path = Some e)"


text \<open>
  None of the four edits of \<open>update_cli_runner\<close> finds its anchor in the buffer; the
  anchor of the regular expression is the literal text it starts with.
\<close>

definition cli_wrapper_head :: string where
  "cli_wrapper_head = (case cli_wrapper_pattern of Lit l # rs \<Rightarrow> l | _ \<Rightarrow> [])"

definition no_cli_anchor :: "string \<Rightarrow> bool" where
  "no_cli_anchor content =
     (\<not> sublist cli_import_old content \<and> \<not> sublist cli_call_old content \<and>
      \<not> sublist cli_wrapper_head content \<and> \<not> sublist cli_flags_old content)"

subsection \<open>Worlds used as concrete inputs\<close>

text \<open>The paths of the five jobs, in the order of the run.\<close>

definition refactor_paths :: "platform \<Rightarrow> string list" where
  "refactor_paths p =
     map (path_join p BASE_DIR)
       [''cli_runner.rs'', ''config.rs'', ''hooks.rs'', ''prompt_enhancer.rs'', ''mod.rs'']"

text \<open>
  A POSIX world with the given files, in which the operating system refuses nothing
  and standard output takes every text.
\<close>

definition posix_world :: "(string \<rightharpoonup> string) \<Rightarrow> world" where
  "posix_world fs =
     \<lparr>files = fs, refuse_read = (\<lambda>_. None), refuse_write = (\<lambda>_. None), os = Posix,
      stdout_rejects = (\<lambda>_. False), codec_says = (\<lambda>_. []), stdout = [], written = []\<rparr>"



text \<open>\<open>config.rs\<close> holds nothing that \<open>update_config\<close> edits.\<close>

definition world_plain_config :: world where
  "world_plain_config =
     posix_world [path_join Posix BASE_DIR ''config.rs'' \<mapsto> ''fn main() {}\<newline>'']"

text \<open>The same file, which the operating system refuses to open for writing.\<close>

definition world_readonly_config :: world where
  "world_readonly_config =
     world_plain_config\<lparr>refuse_write := (\<lambda>_. Some (OSError ''[Errno 13] Permission denied''))\<rparr>"

text \<open>\<open>cli_runner.rs\<close> has one line ending in \<open>\r\n\<close> and one ending in \<open>\n\<close>, and no anchor.\<close>

definition crlf_text :: string where
  "crlf_text = ''// a'' @ [CHR 0x0D, CHR ''\<newline>''] @ ''// b\<newline>''"

definition world_crlf :: world where
  "world_crlf = posix_world [path_join Posix BASE_DIR ''cli_runner.rs'' \<mapsto> crlf_text]"

text \<open>
  \<open>cli_runner.rs\<close> is the single byte \<open>0xFF\<close>, which is not UTF-8; \<open>config.rs\<close> does not
  exist. The codec's message is the one Python gives for this byte.
\<close>

definition world_undecodable :: world where
  "world_undecodable =
     (posix_world [path_join Posix BASE_DIR ''cli_runner.rs'' \<mapsto> [CHR 0xFF]])
       \<lparr>codec_says := (\<lambda>_. [CHR 0x27] @ ''utf-8'' @ [CHR 0x27] @
            '' codec can'' @ [CHR 0x27] @ ''t decode byte 0xff in position 0: invalid start byte'')\<rparr>"

text \<open>All five files of the refactor exist; two of them hold text that is rewritten.\<close>

definition world_all_files :: world where
  "world_all_files =
     posix_world
       [path_join Posix BASE_DIR ''cli_runner.rs'' \<mapsto> cli_call_old @ ''\<newline>'',
        path_join Posix BASE_DIR ''config.rs'' \<mapsto> config_flags_old @ ''\<newline>'',
        path_join Posix BASE_DIR ''hooks.rs'' \<mapsto> [],
        path_join Posix BASE_DIR ''prompt_enhancer.rs'' \<mapsto> [],
        path_join Posix BASE_DIR ''mod.rs'' \<mapsto> []]"


section \<open>The boundary-safe slicer: \<open>truncate_utf8_safe\<close> (Rust, carried by \<open>fix_utf8.py\<close>)\<close>

text \<open>
  The Rust function is the payload \<open>TRUNCATE_FUNCTION\<close> of \<open>src-tauri/fix_utf8.py\<close>.
  A \<open>&str\<close> is its sequence of bytes (\<open>u8\<close>), which the type guarantees to be
  well-formed UTF-8 (\<open>utf8_valid\<close> above); \<open>usize\<close> offsets are natural numbers (the
  function only compares and decrements them). A panic of the slice operator is the
  value \<open>None\<close>.

  The standard-library operations the function calls are modelled after
  \<open>core::str\<close>: \<open>is_char_boundary\<close> (with \<open>u8::is_utf8_char_boundary\<close>, the test
  \<open>(b as i8) >= -0x40\<close>), \<open>char_indices().next()\<close> (through \<open>next_code_point\<close>),
  \<open>char::len_utf8\<close>, and the slice \<open>&s[..n]\<close>, which panics off a boundary.
\<close>

definition is_utf8_char_boundary :: "byte \<Rightarrow> bool" where
  "is_utf8_char_boundary b = (- 64 \<le> sint b)"

definition is_char_boundary :: "str \<Rightarrow> nat \<Rightarrow> bool" where
  "is_char_boundary s index =
     (if index = 0 then True
      else if length s \<le> index then index = length s
      else is_utf8_char_boundary (s ! index))"

definition next_code_point :: "str \<Rightarrow> nat option" where
  "next_code_point bytes =
     (case bytes of
        [] \<Rightarrow> None
      | x # r1 \<Rightarrow>
          if x < 0x80 then Some (unat x)
          else (case r1 of
             [] \<Rightarrow> None
           | y # r2 \<Rightarrow>
               let init = unat x mod 32;
                   ch = init * 64 + unat y mod 64
               in if x < 0xE0 then Some ch
                  else (case r2 of
                     [] \<Rightarrow> None
                   | z # r3 \<Rightarrow>
                       let y_z = (unat y mod 64) * 64 + unat z mod 64
                       in if x < 0xF0 then Some (init * 4096 + y_z)
                          else (case r3 of
                             [] \<Rightarrow> None
                           | w # r4 \<Rightarrow>
                               Some ((init mod 8) * 262144 + (y_z * 64 + unat w mod 64))))))"

definition len_utf8 :: "nat \<Rightarrow> nat" where
  "len_utf8 code =
     (if code < 0x80 then 1 else if code < 0x800 then 2 else if code < 0x10000 then 3 else 4)"

definition char_indices_next :: "str \<Rightarrow> (nat \<times> nat) option" where
  "char_indices_next s = map_option (\<lambda>ch. (0, ch)) (next_code_point s)"

definition slice_to :: "str \<Rightarrow> nat \<Rightarrow> str option" where
  "slice_to s n = (if is_char_boundary s n then Some (take n s) else None)"

fun scan_back :: "str \<Rightarrow> nat \<Rightarrow> nat" where
  "scan_back s 0 = 0"
| "scan_back s (Suc n) = (if \<not> is_char_boundary s (Suc n) then scan_back s n else Suc n)"

definition truncate_utf8_safe :: "str \<Rightarrow> nat \<Rightarrow> str option" where
  "truncate_utf8_safe s max_bytes =
     (if length s \<le> max_bytes then Some s
      else let index = scan_back s max_bytes in
        if index = 0 then
          (case char_indices_next s of
             Some (i, ch) \<Rightarrow> slice_to s (len_utf8 ch)
           | None \<Rightarrow> Some [])
        else slice_to s index)"

definition first_char_units :: "str \<Rightarrow> nat" where
  "first_char_units s = (case s of [] \<Rightarrow> 0 | b # bs \<Rightarrow> utf8_char_width b)"
section \<open>Properties of the text operations\<close>

subsection \<open>Occurrences before and after \<open>str.replace\<close>\<close>

lemma overlap_iff: "overlap a b \<longleftrightarrow> (\<exists>x. x \<noteq> [] \<and> suffix x a \<and> prefix x b)"
proof (induction a)
  case Nil
  then show ?case by simp
next
  case (Cons c a)
  show ?case
  proof
    assume "overlap (c # a) b"
    then consider "prefix (c # a) b" | "overlap a b" by auto
    then show "\<exists>x. x \<noteq> [] \<and> suffix x (c # a) \<and> prefix x b"
    proof cases
      case 1
      then show ?thesis by (intro exI[of _ "c # a"]) simp
    next
      case 2
      then obtain x where "x \<noteq> []" "suffix x a" "prefix x b" using Cons by blast
      then show ?thesis by (intro exI[of _ x]) (simp add: suffix_Cons)
    qed
  next
    assume "\<exists>x. x \<noteq> [] \<and> suffix x (c # a) \<and> prefix x b"
    then obtain x where x: "x \<noteq> []" "suffix x (c # a)" "prefix x b" by blast
    from x(2) consider "x = c # a" | "suffix x a" by (auto simp: suffix_Cons)
    then show "overlap (c # a) b"
    proof cases
      case 1
      then show ?thesis using x by simp
    next
      case 2
      then show ?thesis using x Cons by auto
    qed
  qed
qed

lemma str_replace_Nil: "old \<noteq> [] \<Longrightarrow> str_replace old new [] = []"
  by simp

lemma str_replace_hit:
  "old \<noteq> [] \<Longrightarrow> prefix old (c # cs) \<Longrightarrow>
   str_replace old new (c # cs) = new @ str_replace old new (drop (length old) (c # cs))"
  by simp

lemma str_replace_miss:
  "old \<noteq> [] \<Longrightarrow> \<not> prefix old (c # cs) \<Longrightarrow>
   str_replace old new (c # cs) = c # str_replace old new cs"
  by simp

lemma str_replace_append_hit:
  "old \<noteq> [] \<Longrightarrow> str_replace old new (old @ s) = new @ str_replace old new s"
  by (cases old) simp_all

lemma re_sub_Lit:
  "old \<noteq> [] \<Longrightarrow> re_sub [Lit old] (\<lambda>_. new) s = str_replace old new s"
proof (induction old new s rule: str_replace.induct)
  case (1 old new)
  then show ?case by simp
next
  case (2 old new c cs)
  show ?case
  proof (cases "prefix old (c # cs)")
    case True
    then have len: "length old \<le> length (c # cs)" by (rule prefix_length_le)
    have "length (drop (length old) (c # cs)) < length (c # cs)"
      using 2(4) by (cases old) simp_all
    then show ?thesis using True 2 by simp
  next
    case False
    then show ?thesis using 2 by simp
  qed
qed

declare str_replace.simps [simp del]

lemma sublist_trans2: "sublist a b \<Longrightarrow> sublist b c \<Longrightarrow> sublist a c"
  by (rule sublist_order.order.trans)

lemma suffix_trans2: "suffix a b \<Longrightarrow> suffix b c \<Longrightarrow> suffix a c"
  by (auto simp: suffix_def)

lemma overlapI: "x \<noteq> [] \<Longrightarrow> suffix x a \<Longrightarrow> prefix x b \<Longrightarrow> overlap a b"
  using overlap_iff by blast

text \<open>A text that is independent of the replacement: where it stands after the rewrite, it stood before.\<close>

lemma prefix_replace_imp:
  "old \<noteq> [] \<Longrightarrow> \<not> overlap q new \<Longrightarrow> \<not> sublist new q \<Longrightarrow> suffix q' q \<Longrightarrow>
   prefix q' (str_replace old new s) \<Longrightarrow> prefix q' s"
proof (induction old new s arbitrary: q' rule: str_replace.induct)
  case (1 old new)
  then show ?case by (simp add: str_replace_Nil)
next
  case (2 old new c cs)
  note ne = \<open>old \<noteq> []\<close>
  show ?case
  proof (cases "q' = []")
    case True
    then show ?thesis by simp
  next
    case q'ne: False
    show ?thesis
    proof (cases "prefix old (c # cs)")
      case True
      then have "prefix q' (new @ str_replace old new (drop (length old) (c # cs)))"
        using "2.prems"(5) by (simp only: str_replace_hit[OF ne True])
      then consider "prefix q' new" | us where "q' = new @ us"
        unfolding prefix_append by blast
      then show ?thesis
      proof cases
        case 1
        then have "overlap q new" using q'ne "2.prems"(4) by (rule overlapI[rotated 2])
        then show ?thesis using "2.prems"(2) by simp
      next
        case 2
        then have "sublist new q'" by simp
        moreover have "sublist q' q" using "2.prems"(4) by (rule suffix_imp_sublist)
        ultimately have "sublist new q" by (rule sublist_trans2)
        then show ?thesis using "2.prems"(3) by simp
      qed
    next
      case False
      then have p: "prefix q' (c # str_replace old new cs)"
        using "2.prems"(5) by (simp only: str_replace_miss[OF ne False])
      from q'ne p obtain q'' where q': "q' = c # q''" and p': "prefix q'' (str_replace old new cs)"
        by (cases q') auto
      have "suffix q'' q'" using q' by (simp add: suffix_Cons)
      then have "suffix q'' q" using "2.prems"(4) by (rule suffix_trans2)
      then have "prefix q'' cs"
        using "2.IH"(3)[OF ne False ne "2.prems"(2,3) _ p'] by simp
      then show ?thesis using q' by simp
    qed
  qed
qed

text \<open>No occurrence of such a text is created by the rewrite.\<close>

lemma sublist_replace_imp:
  "old \<noteq> [] \<Longrightarrow> independent q new \<Longrightarrow> sublist q (str_replace old new s) \<Longrightarrow> sublist q s"
proof (induction old new s rule: str_replace.induct)
  case (1 old new)
  then show ?case by (simp add: str_replace_Nil)
next
  case (2 old new c cs)
  note ne = \<open>old \<noteq> []\<close>
  from "2.prems"(2) have ind: "\<not> overlap q new" "\<not> overlap new q" "\<not> sublist q new" "\<not> sublist new q"
    by (simp_all add: independent_def)
  show ?case
  proof (cases "prefix old (c # cs)")
    case True
    let ?rest = "drop (length old) (c # cs)"
    have "sublist q (new @ str_replace old new ?rest)"
      using "2.prems"(3) by (simp only: str_replace_hit[OF ne True])
    then consider "sublist q new" | "sublist q (str_replace old new ?rest)"
      | q1 q2 where "q = q1 @ q2" "suffix q1 new" "prefix q2 (str_replace old new ?rest)"
      unfolding sublist_append by blast
    then have "sublist q (str_replace old new ?rest)"
    proof cases
      case 1
      then show ?thesis using ind(3) by simp
    next
      case 2
      then show ?thesis .
    next
      case 3
      show ?thesis
      proof (cases "q1 = []")
        case True
        then show ?thesis using 3 by auto
      next
        case False
        moreover have "prefix q1 q" using 3(1) by simp
        ultimately have "overlap new q" using 3(2) by (intro overlapI[of q1])
        then show ?thesis using ind(2) by simp
      qed
    qed
    then have "sublist q ?rest" using "2.IH"(2)[OF ne True ne "2.prems"(2)] by simp
    moreover have "sublist ?rest (c # cs)" by (rule sublist_drop)
    ultimately show ?thesis by (rule sublist_trans2)
  next
    case False
    then have "sublist q (c # str_replace old new cs)"
      using "2.prems"(3) by (simp only: str_replace_miss[OF ne False])
    then consider "prefix q (c # str_replace old new cs)" | "sublist q (str_replace old new cs)"
      unfolding sublist_Cons_right by blast
    then show ?thesis
    proof cases
      case 1
      then have "prefix q (str_replace old new (c # cs))"
        by (simp only: str_replace_miss[OF ne False])
      then have "prefix q (c # cs)"
        using prefix_replace_imp[OF ne ind(1) ind(4), of q] by simp
      then show ?thesis by (rule prefix_imp_sublist)
    next
      case 2
      then have "sublist q cs" using "2.IH"(3)[OF ne False ne "2.prems"(2)] by simp
      then show ?thesis by (simp add: sublist_Cons_right)
    qed
  qed
qed

text \<open>When the searched text is independent of its replacement, none is left after the rewrite.\<close>

lemma replace_removes_all:
  "old \<noteq> [] \<Longrightarrow> independent old new \<Longrightarrow> \<not> sublist old (str_replace old new s)"
proof (induction old new s rule: str_replace.induct)
  case (1 old new)
  then show ?case by (simp add: str_replace_Nil)
next
  case (2 old new c cs)
  note ne = \<open>old \<noteq> []\<close>
  from "2.prems"(2) have ind: "\<not> overlap old new" "\<not> overlap new old" "\<not> sublist old new" "\<not> sublist new old"
    by (simp_all add: independent_def)
  show ?case
  proof (cases "prefix old (c # cs)")
    case True
    let ?rest = "drop (length old) (c # cs)"
    have IH: "\<not> sublist old (str_replace old new ?rest)"
      using "2.IH"(2)[OF ne True ne "2.prems"(2)] .
    show ?thesis
    proof
      assume "sublist old (str_replace old new (c # cs))"
      then have "sublist old (new @ str_replace old new ?rest)"
        by (simp only: str_replace_hit[OF ne True])
      then consider "sublist old new" | "sublist old (str_replace old new ?rest)"
        | q1 q2 where "old = q1 @ q2" "suffix q1 new" "prefix q2 (str_replace old new ?rest)"
        unfolding sublist_append by blast
      then show False
      proof cases
        case 1
        then show ?thesis using ind(3) by simp
      next
        case 2
        then show ?thesis using IH by simp
      next
        case 3
        show ?thesis
        proof (cases "q1 = []")
          case True
          then show ?thesis using 3 IH by auto
        next
          case False
          moreover have "prefix q1 old" using 3(1) by simp
          ultimately have "overlap new old" using 3(2) by (intro overlapI[of q1])
          then show ?thesis using ind(2) by simp
        qed
      qed
    qed
  next
    case False
    have IH: "\<not> sublist old (str_replace old new cs)"
      using "2.IH"(3)[OF ne False ne "2.prems"(2)] .
    show ?thesis
    proof
      assume a: "sublist old (str_replace old new (c # cs))"
      then have "sublist old (c # str_replace old new cs)"
        by (simp only: str_replace_miss[OF ne False])
      then have "prefix old (c # str_replace old new cs)"
        using IH unfolding sublist_Cons_right by blast
      then have "prefix old (str_replace old new (c # cs))"
        by (simp only: str_replace_miss[OF ne False])
      then have "prefix old (c # cs)"
        using prefix_replace_imp[OF ne ind(1) ind(4), of old] by simp
      then show False using False by simp
    qed
  qed
qed

lemma replace_absent:
  "old \<noteq> [] \<Longrightarrow> \<not> sublist old s \<Longrightarrow> str_replace old new s = s"
proof (induction s)
  case Nil
  then show ?case by (simp add: str_replace_Nil)
next
  case (Cons c cs)
  then have np: "\<not> prefix old (c # cs)" and ns: "\<not> sublist old cs"
    unfolding sublist_Cons_right by blast+
  show ?case unfolding str_replace_miss[OF Cons.prems(1) np] using Cons.IH[OF Cons.prems(1) ns] by simp
qed

lemma replace_idempotent:
  "old \<noteq> [] \<Longrightarrow> independent old new \<Longrightarrow>
   str_replace old new (str_replace old new s) = str_replace old new s"
  by (rule replace_absent) (simp_all add: replace_removes_all)

lemma prefix_same_split:
  "prefix a s \<Longrightarrow> prefix b s \<Longrightarrow> prefix a b \<or> prefix b a"
  by (rule prefix_same_cases)

lemma prefix_drop_eq: "prefix xs ys \<Longrightarrow> xs @ drop (length xs) ys = ys"
  by (auto simp: prefix_def)

text \<open>A text independent of the searched text stays where it is.\<close>

lemma prefix_replace_preserved:
  "old \<noteq> [] \<Longrightarrow> \<not> overlap g old \<Longrightarrow> \<not> sublist old g \<Longrightarrow> suffix g' g \<Longrightarrow>
   prefix g' s \<Longrightarrow> prefix g' (str_replace old new s)"
proof (induction old new s arbitrary: g' rule: str_replace.induct)
  case (1 old new)
  then show ?case by (simp add: str_replace_Nil)
next
  case (2 old new c cs)
  note ne = \<open>old \<noteq> []\<close>
  show ?case
  proof (cases "g' = []")
    case True
    then show ?thesis by simp
  next
    case g'ne: False
    have miss: "\<not> prefix old (c # cs)"
    proof
      assume hit: "prefix old (c # cs)"
      from prefix_same_split[OF "2.prems"(5) hit] show False
      proof
        assume "prefix g' old"
        then have "overlap g old" using g'ne "2.prems"(4) by (intro overlapI[of g'])
        then show False using "2.prems"(2) by simp
      next
        assume "prefix old g'"
        then have "sublist old g'" by (rule prefix_imp_sublist)
        moreover have "sublist g' g" using "2.prems"(4) by (rule suffix_imp_sublist)
        ultimately have "sublist old g" by (rule sublist_trans2)
        then show False using "2.prems"(3) by simp
      qed
    qed
    from g'ne "2.prems"(5) obtain g'' where g': "g' = c # g''" and p: "prefix g'' cs"
      by (cases g') auto
    have "suffix g'' g'" using g' by (simp add: suffix_Cons)
    then have "suffix g'' g" using "2.prems"(4) by (rule suffix_trans2)
    then have "prefix g'' (str_replace old new cs)"
      using "2.IH"(3)[OF ne miss ne "2.prems"(2,3) _ p] by simp
    then show ?thesis unfolding str_replace_miss[OF ne miss] g' by simp
  qed
qed

lemma sublist_replace_preserved:
  "old \<noteq> [] \<Longrightarrow> independent g old \<Longrightarrow> sublist g s \<Longrightarrow> sublist g (str_replace old new s)"
proof (induction old new s rule: str_replace.induct)
  case (1 old new)
  then show ?case by (simp add: str_replace_Nil)
next
  case (2 old new c cs)
  note ne = \<open>old \<noteq> []\<close>
  from "2.prems"(2) have ind: "\<not> overlap g old" "\<not> overlap old g" "\<not> sublist g old" "\<not> sublist old g"
    by (simp_all add: independent_def)
  show ?case
  proof (cases "prefix old (c # cs)")
    case True
    let ?rest = "drop (length old) (c # cs)"
    have "sublist g (old @ ?rest)" using "2.prems"(3) prefix_drop_eq[OF True] by simp
    then consider "sublist g old" | "sublist g ?rest"
      | g1 g2 where "g = g1 @ g2" "suffix g1 old" "prefix g2 ?rest"
      unfolding sublist_append by blast
    then have "sublist g ?rest"
    proof cases
      case 1
      then show ?thesis using ind(3) by simp
    next
      case 2
      then show ?thesis .
    next
      case 3
      show ?thesis
      proof (cases "g1 = []")
        case True
        then show ?thesis using 3 by auto
      next
        case False
        moreover have "prefix g1 g" using 3(1) by simp
        ultimately have "overlap old g" using 3(2) by (intro overlapI[of g1])
        then show ?thesis using ind(2) by simp
      qed
    qed
    then have "sublist g (str_replace old new ?rest)"
      using "2.IH"(2)[OF ne True ne "2.prems"(2)] by simp
    then have "sublist g (new @ str_replace old new ?rest)"
      unfolding sublist_append by blast
    then show ?thesis by (simp only: str_replace_hit[OF ne True])
  next
    case False
    from "2.prems"(3) consider "prefix g (c # cs)" | "sublist g cs"
      unfolding sublist_Cons_right by blast
    then show ?thesis
    proof cases
      case 1
      have sg: "suffix g g" by simp
      have "prefix g (str_replace old new (c # cs))"
        by (rule prefix_replace_preserved[OF ne ind(1) ind(4) sg 1])
      then show ?thesis by (rule prefix_imp_sublist)
    next
      case 2
      then have "sublist g (str_replace old new cs)"
        using "2.IH"(3)[OF ne False ne "2.prems"(2)] by simp
      then have "sublist g (c # str_replace old new cs)"
        unfolding sublist_Cons_right by blast
      then show ?thesis by (simp only: str_replace_miss[OF ne False])
    qed
  qed
qed

lemma replace_contains_new:
  "old \<noteq> [] \<Longrightarrow> sublist old s \<Longrightarrow> sublist new (str_replace old new s)"
proof (induction s)
  case Nil
  then show ?case by simp
next
  case (Cons c cs)
  show ?case
  proof (cases "prefix old (c # cs)")
    case True
    show ?thesis by (simp only: str_replace_hit[OF Cons.prems(1) True]) simp
  next
    case False
    then have "sublist old cs" using Cons.prems(2) unfolding sublist_Cons_right by blast
    then have "sublist new (str_replace old new cs)" using Cons by simp
    then have "sublist new (c # str_replace old new cs)" unfolding sublist_Cons_right by blast
    then show ?thesis by (simp only: str_replace_miss[OF Cons.prems(1) False])
  qed
qed

text \<open>The leftmost occurrence is rewritten, and the scan goes on behind it.\<close>

lemma replace_first:
  "old \<noteq> [] \<Longrightarrow> \<not> sublist old (u @ butlast old) \<Longrightarrow>
   str_replace old new (u @ old @ v) = u @ new @ str_replace old new v"
proof (induction u)
  case Nil
  then show ?case by (simp add: str_replace_append_hit)
next
  case (Cons c u)
  have miss: "\<not> prefix old (c # (u @ old @ v))"
  proof
    assume hit: "prefix old (c # (u @ old @ v))"
    have eq: "c # (u @ old @ v) = ((c # u) @ butlast old) @ (last old # v)"
      using Cons.prems(1) by simp
    have "prefix ((c # u) @ butlast old) (c # (u @ old @ v))" unfolding eq by simp
    moreover have "length old \<le> length ((c # u) @ butlast old)" by simp
    ultimately have "prefix old ((c # u) @ butlast old)"
      using hit prefix_length_prefix by blast
    then have "sublist old ((c # u) @ butlast old)" by (rule prefix_imp_sublist)
    then show False using Cons.prems(2) by simp
  qed
  have "\<not> sublist old (u @ butlast old)"
    using Cons.prems(2) by (simp add: sublist_Cons_right)
  then have "str_replace old new (u @ old @ v) = u @ new @ str_replace old new v"
    using Cons.IH Cons.prems(1) by simp
  then show ?case using str_replace_miss[OF Cons.prems(1) miss] by simp
qed

subsection \<open>Matches of the scripts' patterns are never empty\<close>

lemma rx_match_length: "rx_match rs s = Some t \<Longrightarrow> length t \<le> length s"
proof (induction rs s arbitrary: t rule: rx_match.induct)
  case (1 s)
  then show ?case by simp
next
  case (2 l rs s)
  from "2.prems" have p: "prefix l s" and m: "rx_match rs (drop (length l) s) = Some t"
    by (auto split: if_splits)
  from "2.IH"[OF p m] show ?case by simp
next
  case (3 rs s)
  show ?case
  proof (cases "rx_match rs s")
    case (Some u)
    then have "t = u" using "3.prems" by simp
    then show ?thesis using "3.IH"(1)[OF Some] by simp
  next
    case None
    then have "(case s of [] \<Rightarrow> None
                | c # cs \<Rightarrow> if c = CHR ''\<newline>'' then None else rx_match (DotLazy # rs) cs)
               = Some t"
      using "3.prems" by simp
    then obtain c cs where s: "s = c # cs" and c: "c \<noteq> CHR ''\<newline>''"
      and m: "rx_match (DotLazy # rs) cs = Some t"
      by (cases s) (auto split: if_splits simp del: rx_match.simps(3))
    from "3.IH"(2)[OF None s c m] show ?thesis using s by simp
  qed
next
  case (4 rs s)
  show ?case
  proof (cases "rx_match rs s")
    case (Some u)
    then have "t = u" using "4.prems" by simp
    then show ?thesis using "4.IH"(1)[OF Some] by simp
  next
    case None
    then have "(case s of [] \<Rightarrow> None | c # cs \<Rightarrow> rx_match (AnyLazy # rs) cs) = Some t"
      using "4.prems" by simp
    then obtain c cs where s: "s = c # cs" and m: "rx_match (AnyLazy # rs) cs = Some t"
      by (cases s) (auto simp del: rx_match.simps(4))
    from "4.IH"(2)[OF None s m] show ?thesis using s by simp
  qed
qed

lemma rx_match_Lit_shorter:
  assumes "l \<noteq> []" "rx_match (Lit l # rs) s = Some t"
  shows "length t < length s"
proof -
  from assms(2) have p: "prefix l s" and m: "rx_match rs (drop (length l) s) = Some t"
    by (auto split: if_splits)
  have a: "length t \<le> length s - length l" using rx_match_length[OF m] by simp
  have b: "0 < length l" using assms(1) by simp
  have c: "length l \<le> length s" using prefix_length_le[OF p] .
  show ?thesis using a b c by linarith
qed

lemma patterns_start_with_literal:
  "\<exists>l rs. cli_wrapper_pattern = Lit l # rs \<and> l \<noteq> []"
  "\<exists>l rs. mod_wrapper_pattern = Lit l # rs \<and> l \<noteq> []"
  "\<exists>l rs. claude_insert_pattern = Lit l # rs \<and> l \<noteq> []"
  "\<exists>l rs. acemcp_insert_pattern = Lit l # rs \<and> l \<noteq> []"
  by (simp_all add: cli_wrapper_pattern_def mod_wrapper_pattern_def claude_insert_pattern_def
        acemcp_insert_pattern_def)

subsection \<open>The anchors and payloads of the scripts\<close>

lemma slice_independent:
  "independent trimmed_prompt_old trimmed_prompt_new"
  "independent context_str_old context_str_new"
  "independent context_result_old context_result_new"
  "independent trimmed_context_old trimmed_context_new"
  by code_simp+

lemma slice_nonempty:
  "trimmed_prompt_old \<noteq> []" "context_str_old \<noteq> []"
  "context_result_old \<noteq> []" "trimmed_context_old \<noteq> []"
  by (simp_all add: trimmed_prompt_old_def context_str_old_def context_result_old_def
        trimmed_context_old_def)

lemma cli_call_independent: "independent cli_call_old cli_call_new"
  by code_simp

lemma cli_call_nonempty: "cli_call_old \<noteq> []"
  by (simp add: cli_call_old_def)


subsection \<open>A guarded insertion followed by a rewrite\<close>

lemma guarded_edit_idempotent:
  fixes guard anchor payload old new :: string
  defines "T \<equiv> \<lambda>s. str_replace old new
                    (if \<not> sublist guard s then str_replace anchor payload s else s)"
  assumes ne: "old \<noteq> []" "anchor \<noteq> []"
    and io: "independent old new"
    and ig: "independent guard old"
    and ia: "independent anchor new"
    and gp: "sublist guard payload"
  shows "T (T s) = T s"
proof -
  let ?step = "str_replace old new"
  define s1 where "s1 = (if \<not> sublist guard s then str_replace anchor payload s else s)"
  have Ts: "T s = ?step s1" by (simp add: T_def s1_def)
  have idem: "\<And>x. ?step (?step x) = ?step x" by (rule replace_idempotent[OF ne(1) io])
  show ?thesis
  proof (cases "sublist guard s1")
    case True
    then have "sublist guard (?step s1)" by (rule sublist_replace_preserved[OF ne(1) ig])
    then have "T (?step s1) = ?step (?step s1)" by (simp add: T_def)
    then show ?thesis using Ts idem by simp
  next
    case False
    have ng: "\<not> sublist guard s"
    proof
      assume "sublist guard s"
      then have "s1 = s" by (simp add: s1_def)
      then show False using False \<open>sublist guard s\<close> by simp
    qed
    then have s1: "s1 = str_replace anchor payload s" by (simp add: s1_def)
    have na: "\<not> sublist anchor s"
    proof
      assume "sublist anchor s"
      then have "sublist payload s1" unfolding s1 by (rule replace_contains_new[OF ne(2)])
      with gp have "sublist guard s1" by (rule sublist_trans2)
      then show False using False by simp
    qed
    then have s1s: "s1 = s" unfolding s1 by (rule replace_absent[OF ne(2)])
    have na': "\<not> sublist anchor (?step s)"
      using sublist_replace_imp[OF ne(1) ia] na by blast
    have "(if \<not> sublist guard (?step s) then str_replace anchor payload (?step s) else ?step s)
            = ?step s"
      using replace_absent[OF ne(2) na'] by simp
    then have "T (?step s) = ?step (?step s)" by (simp add: T_def)
    then show ?thesis using Ts s1s idem by simp
  qed
qed

lemma config_facts:
  "config_flags_old \<noteq> []" "paths_import_old \<noteq> []"
  "independent config_flags_old config_flags_new"
  "independent platform_import config_flags_old"
  "independent paths_import_old config_flags_new"
  "sublist platform_import paths_import_new"
  by code_simp+

lemma hooks_facts:
  "hooks_flags_old \<noteq> []"
  "independent hooks_flags_old hooks_flags_new"
  "independent platform_import hooks_flags_old"
  "independent paths_import_old hooks_flags_new"
  by code_simp+

lemma update_config_content_idempotent:
  "update_config_content (update_config_content C) = update_config_content C"
  using guarded_edit_idempotent[OF config_facts]
  by (simp add: update_config_content_def re_sub_Lit config_facts(1))

lemma update_hooks_content_idempotent:
  "update_hooks_content (update_hooks_content C) = update_hooks_content C"
  using guarded_edit_idempotent[OF hooks_facts(1) config_facts(2) hooks_facts(2,3,4) config_facts(6)]
  by (simp add: update_hooks_content_def re_sub_Lit hooks_facts(1))

subsection \<open>Lines\<close>

lemma concat_readlines: "concat (readlines s) = s"
  by (induction s rule: readlines.induct) (auto split: list.splits)

lemma readlines_line:
  "CHR ''\<newline>'' \<notin> set l \<Longrightarrow> readlines (l @ CHR ''\<newline>'' # t) = (l @ [CHR ''\<newline>'']) # readlines t"
  by (induction l) auto

lemma line_ok_split: "line_ok l \<Longrightarrow> l = butlast l @ [CHR ''\<newline>''] \<and> CHR ''\<newline>'' \<notin> set (butlast l)"
  unfolding line_ok_def by (metis append_butlast_last_id)

lemma readlines_concat:
  "list_all line_ok ls \<Longrightarrow> readlines (concat ls @ t) = ls @ readlines t"
proof (induction ls)
  case Nil
  then show ?case by simp
next
  case (Cons l ls)
  then have ok: "line_ok l" and rest: "list_all line_ok ls" by simp_all
  from line_ok_split[OF ok] obtain b where l: "l = b @ [CHR ''\<newline>'']"
    and n: "CHR ''\<newline>'' \<notin> set b" by blast
  show ?case unfolding l using readlines_line[OF n, of "concat ls @ t"] Cons.IH[OF rest] by simp
qed

lemma readlines_butlast_ok: "list_all line_ok (butlast (readlines s))"
proof (induction s rule: readlines.induct)
  case 1
  then show ?case by simp
next
  case (2 c cs)
  show ?case
  proof (cases "c = CHR ''\<newline>''")
    case True
    then show ?thesis using 2 by (simp add: line_ok_def)
  next
    case False
    show ?thesis
    proof (cases "readlines cs")
      case Nil
      then show ?thesis using False by simp
    next
      case (Cons l ls)
      show ?thesis
      proof (cases "ls = []")
        case True
        then show ?thesis using False Cons by simp
      next
        case ne: False
        then have "line_ok l" using 2(2)[OF False] Cons by simp
        then have "line_ok (c # l)" using False by (auto simp: line_ok_def)
        then show ?thesis using False Cons ne 2(2)[OF False] by simp
      qed
    qed
  qed
qed

lemma readlines_take_ok:
  assumes "n < length (readlines s)"
  shows "list_all line_ok (take n (readlines s))"
proof -
  have "take n (readlines s) = take n (butlast (readlines s))"
    using assms by (simp add: take_butlast)
  moreover have "set (take n (butlast (readlines s))) \<subseteq> set (butlast (readlines s))"
    by (rule set_take_subset)
  ultimately show ?thesis using readlines_butlast_ok[of s] by (auto simp: list_all_iff)
qed

lemma new_block_lines:
  "list_all line_ok (readlines new_block)"
  "length (readlines new_block) = 13"
  "drop 12 (readlines new_block) = [''\<newline>'']"
  by code_simp+

lemma fix_mutex_content_eq:
  "fix_mutex_content c = concat (take 628 (readlines c)) @ new_block @ concat (drop 640 (readlines c))"
  by (simp add: fix_mutex_content_def Let_def)

lemma fix_mutex_twice:
  assumes len: "640 \<le> length (readlines c)"
  shows "fix_mutex_content (fix_mutex_content c) =
           concat (take 628 (readlines c)) @ new_block @ ''\<newline>'' @ concat (drop 640 (readlines c))"
proof -
  let ?L = "readlines c"
  let ?A = "take 628 ?L" and ?Z = "concat (drop 640 ?L)"
  let ?NB = "readlines new_block"
  have A_ok: "list_all line_ok ?A" using len by (intro readlines_take_ok) simp
  have lenA: "length ?A = 628" using len by simp
  have nb: "concat ?NB = new_block" by (rule concat_readlines)
  have "readlines (fix_mutex_content c) = ?A @ readlines (concat ?NB @ ?Z)"
    unfolding fix_mutex_content_eq nb by (rule readlines_concat[OF A_ok])
  also have "\<dots> = ?A @ ?NB @ readlines ?Z"
    using readlines_concat[OF new_block_lines(1)] by simp
  finally have L': "readlines (fix_mutex_content c) = ?A @ ?NB @ readlines ?Z" .
  have t: "take 628 (readlines (fix_mutex_content c)) = ?A"
    unfolding L' using lenA by simp
  have "drop 640 (?A @ ?NB @ readlines ?Z) = drop 12 (?NB @ readlines ?Z)"
    using lenA by simp
  also have "\<dots> = drop 12 ?NB @ readlines ?Z"
    using new_block_lines(2) by simp
  finally have d: "drop 640 (readlines (fix_mutex_content c)) = [''\<newline>''] @ readlines ?Z"
    unfolding L' new_block_lines(3) .
  show ?thesis
    unfolding fix_mutex_content_eq[of "fix_mutex_content c"] t d
    by (simp add: concat_readlines)
qed

lemma readlines_replicate:
  "readlines (replicate n CHR ''\<newline>'') = replicate n ''\<newline>''"
  by (induction n) simp_all
section \<open>Claims about the buffer transformations\<close>

text \<open>
  C10 (slice rewrites of \<open>fix_utf8.py\<close>). Each of the four substitutions that turn a
  byte slice into a call of \<open>truncate_utf8_safe\<close> is idempotent with no guard: applied
  to its own output it changes nothing, for every buffer. The replacement text holds
  no occurrence of the searched text (and cannot complete one with the text around it).
\<close>

theorem slice_rewrites_idempotent:
  "fix_trimmed_prompt (fix_trimmed_prompt B) = fix_trimmed_prompt B \<and>
   fix_context_str (fix_context_str B) = fix_context_str B \<and>
   fix_context_result (fix_context_result B) = fix_context_result B \<and>
   fix_trimmed_context (fix_trimmed_context B) = fix_trimmed_context B \<and>
   \<not> sublist trimmed_prompt_old trimmed_prompt_new \<and>
   \<not> sublist context_str_old context_str_new \<and>
   \<not> sublist context_result_old context_result_new \<and>
   \<not> sublist trimmed_context_old trimmed_context_new"
  using slice_independent
  by (simp add: fix_trimmed_prompt_def fix_context_str_def fix_context_result_def
        fix_trimmed_context_def re_sub_Lit slice_nonempty replace_idempotent independent_def)

text \<open>
  C4, as stated, fails: with two occurrences of the searched text in the buffer, the
  substitution of \<open>update_cli_runner\<close> (\<open>content.replace\<close>) and the one of
  \<open>fix_claude_rs\<close> (\<open>re.sub\<close>) do not leave the second occurrence as it was.
\<close>

theorem first_match_only_counterexample:
  "str_replace cli_call_old cli_call_new (cli_call_old @ ''; '' @ cli_call_old)
     \<noteq> cli_call_new @ ''; '' @ cli_call_old \<and>
   fix_trimmed_prompt (trimmed_prompt_old @ ''; '' @ trimmed_prompt_old)
     \<noteq> trimmed_prompt_new @ ''; '' @ trimmed_prompt_old"
  by code_simp

text \<open>
  C4, amended. Both substitutions rewrite every occurrence: the leftmost occurrence is
  replaced and the scan goes on in the text behind it, so that no occurrence of the
  searched text is left in the result.
\<close>

theorem every_occurrence_rewritten:
  "(\<not> sublist cli_call_old (u @ butlast cli_call_old) \<longrightarrow>
      str_replace cli_call_old cli_call_new (u @ cli_call_old @ v)
        = u @ cli_call_new @ str_replace cli_call_old cli_call_new v) \<and>
   \<not> sublist cli_call_old (str_replace cli_call_old cli_call_new s) \<and>
   (\<not> sublist trimmed_prompt_old (u' @ butlast trimmed_prompt_old) \<longrightarrow>
      fix_trimmed_prompt (u' @ trimmed_prompt_old @ v')
        = u' @ trimmed_prompt_new @ fix_trimmed_prompt v') \<and>
   \<not> sublist trimmed_prompt_old (fix_trimmed_prompt s')"
  using cli_call_independent slice_independent(1)
  by (simp add: fix_trimmed_prompt_def re_sub_Lit slice_nonempty cli_call_nonempty
        replace_first replace_removes_all)

theorem every_occurrence_rewritten_witness:
  "str_replace cli_call_old cli_call_new (cli_call_old @ ''; '' @ cli_call_old)
     = cli_call_new @ ''; '' @ cli_call_new \<and>
   fix_trimmed_prompt (trimmed_prompt_old @ ''; '' @ trimmed_prompt_old)
     = trimmed_prompt_new @ ''; '' @ trimmed_prompt_new"
proof -
  have a: "\<not> sublist cli_call_old ([] @ butlast cli_call_old)" by code_simp
  have b: "\<not> sublist cli_call_old (''; '' @ butlast cli_call_old)" by code_simp
  have c: "\<not> sublist trimmed_prompt_old ([] @ butlast trimmed_prompt_old)" by code_simp
  have d: "\<not> sublist trimmed_prompt_old (''; '' @ butlast trimmed_prompt_old)" by code_simp
  have e: "str_replace cli_call_old cli_call_new [] = []" "fix_trimmed_prompt [] = []"
    by (simp_all add: fix_trimmed_prompt_def str_replace_Nil cli_call_nonempty)
  from every_occurrence_rewritten[of "[]" "''; '' @ cli_call_old" _ "[]" "''; '' @ trimmed_prompt_old"]
       every_occurrence_rewritten[of "''; ''" "[]" _ "''; ''" "[]"] a b c d e
  show ?thesis by simp
qed

text \<open>
  C1, as stated, fails: the transformation of \<open>update_cli_runner\<close> applied twice to a
  buffer that holds its import anchor differs from one application (the import line
  is added again), and so does the line-block replacement of \<open>fix_mutex.py\<close> on the
  empty buffer.
\<close>

theorem idempotence_counterexample:
  "update_cli_runner_content (update_cli_runner_content cli_import_old)
     \<noteq> update_cli_runner_content cli_import_old \<and>
   fix_mutex_content (fix_mutex_content []) \<noteq> fix_mutex_content []"
  by code_simp

text \<open>
  C1, amended. Applying twice equals applying once for the transformations whose
  insertion is guarded, \<open>update_config\<close> and \<open>update_hooks\<close>, on every buffer. The
  line-block replacement of \<open>fix_mutex.py\<close> has no guard and is not idempotent: on a
  buffer of at least 640 lines the second application keeps the last line of the new
  block as an extra line, so the result differs from the first.
\<close>

theorem idempotence_where_guarded:
  "update_config_content (update_config_content C) = update_config_content C \<and>
   update_hooks_content (update_hooks_content C) = update_hooks_content C \<and>
   (640 \<le> length (readlines C) \<longrightarrow>
      fix_mutex_content (fix_mutex_content C) =
        concat (take 628 (readlines C)) @ new_block @ ''\<newline>'' @ concat (drop 640 (readlines C)) \<and>
      fix_mutex_content (fix_mutex_content C) \<noteq> fix_mutex_content C)"
proof -
  have "fix_mutex_content (fix_mutex_content C) \<noteq> fix_mutex_content C"
    if len: "640 \<le> length (readlines C)"
  proof -
    have "length (fix_mutex_content (fix_mutex_content C)) = Suc (length (fix_mutex_content C))"
      by (simp only: fix_mutex_twice[OF len]) (simp add: fix_mutex_content_eq)
    then show ?thesis by auto
  qed
  then show ?thesis
    using update_config_content_idempotent update_hooks_content_idempotent fix_mutex_twice
    by blast
qed

theorem idempotence_where_guarded_witness:
  "update_config_content (update_config_content (replicate 640 CHR ''\<newline>''))
     = update_config_content (replicate 640 CHR ''\<newline>'') \<and>
   fix_mutex_content (fix_mutex_content (replicate 640 CHR ''\<newline>''))
     \<noteq> fix_mutex_content (replicate 640 CHR ''\<newline>'')"
proof -
  have "640 \<le> length (readlines (replicate 640 CHR ''\<newline>''))"
    by (simp add: readlines_replicate)
  then show ?thesis
    using idempotence_where_guarded[of "replicate 640 CHR ''\<newline>''"] by blast
qed
section \<open>Properties of the jobs and the runs\<close>

subsection \<open>Newline translation\<close>

lemma universal_newlines_id: "CHR 0x0D \<notin> set s \<Longrightarrow> universal_newlines s = s"
  by (induction s rule: universal_newlines.induct) auto

lemma universal_newlines_no_CR: "CHR 0x0D \<notin> set (universal_newlines s)"
  by (induction s rule: universal_newlines.induct) auto

lemma universal_newlines_Cons:
  "c \<noteq> CHR 0x0D \<Longrightarrow> universal_newlines (c # s) = c # universal_newlines s"
  by (cases s) auto

lemma universal_newlines_crlf:
  "universal_newlines (a @ CHR 0x0D # CHR ''\<newline>'' # b)
     = universal_newlines a @ CHR ''\<newline>'' # universal_newlines b"
proof (induction a rule: universal_newlines.induct)
  case 1
  then show ?case by simp
next
  case (2 c)
  then show ?case by simp
next
  case (3 c d cs)
  then show ?case by simp
qed

lemma universal_newlines_cr:
  "b = [] \<or> hd b \<noteq> CHR ''\<newline>'' \<Longrightarrow>
   universal_newlines (a @ CHR 0x0D # b) = universal_newlines a @ CHR ''\<newline>'' # universal_newlines b"
proof (induction a rule: universal_newlines.induct)
  case 1
  then show ?case by (cases b) auto
next
  case (2 c)
  then show ?case by (cases b) auto
next
  case (3 c d cs)
  then show ?case by simp
qed

lemma write_newlines_id: "write_newlines ''\<newline>'' s = s"
  by (induction s) (simp_all add: write_newlines_def)

subsection \<open>Sequences of statements\<close>







lemma print_ok:
  "\<not> stdout_rejects w l \<Longrightarrow> print l w = (None, w\<lparr>stdout := stdout w @ [l]\<rparr>)"
  by (simp add: print_def)


lemma run_seq_prints_ok:
  "(\<And>l. \<not> stdout_rejects w l) \<Longrightarrow> fst (run_seq (map print ls) w) = None"
proof (induction ls arbitrary: w)
  case Nil
  then show ?case by simp
next
  case (Cons l ls)
  have "print l w = (None, w\<lparr>stdout := stdout w @ [l]\<rparr>)" using Cons.prems by (simp add: print_ok)
  moreover have "fst (run_seq (map print ls) (w\<lparr>stdout := stdout w @ [l]\<rparr>)) = None"
    using Cons.IH[of "w\<lparr>stdout := stdout w @ [l]\<rparr>"] Cons.prems by simp
  ultimately show ?case by simp
qed

subsection \<open>The jobs\<close>

lemma patch_job_read_fails:
  "read_file p w = Inl e \<Longrightarrow> patch_job p f l w = (Some e, w)"
  by (simp add: patch_job_def)

lemma patch_job_write_fails:
  "read_file p w = Inr c \<Longrightarrow> refuse_write w p = Some e \<Longrightarrow> patch_job p f l w = (Some e, w)"
  by (simp add: patch_job_def write_file_def)

lemma patch_job_io_error: "io_error p w e \<Longrightarrow> patch_job p f l w = (Some e, w)"
  by (auto simp: io_error_def patch_job_def write_file_def split: sum.splits)

lemma patch_job_writes:
  assumes "read_file p w = Inr c" "refuse_write w p = None"
  shows "written (snd (patch_job p f l w)) = written w @ [p]"
    and "files (snd (patch_job p f l w)) = (files w)(p \<mapsto> write_newlines (os_linesep (os w)) (f c))"
    and "fst (patch_job p f l w) = (if stdout_rejects w l then Some (UnicodeEncodeError (codec_says w l)) else None)"
    and "stdout (snd (patch_job p f l w)) = (if stdout_rejects w l then stdout w else stdout w @ [l])"
  using assms by (simp_all add: patch_job_def write_file_def print_def)



lemma jobs_patch:
  "update_cli_runner w =
     patch_job (path_join (os w) BASE_DIR ''cli_runner.rs'') update_cli_runner_content ''Updated cli_runner.rs'' w"
  "update_config w =
     patch_job (path_join (os w) BASE_DIR ''config.rs'') update_config_content ''Updated config.rs'' w"
  "update_hooks w =
     patch_job (path_join (os w) BASE_DIR ''hooks.rs'') update_hooks_content ''Updated hooks.rs'' w"
  "update_prompt_enhancer w =
     patch_job (path_join (os w) BASE_DIR ''prompt_enhancer.rs'') update_prompt_enhancer_content
       ''Updated prompt_enhancer.rs'' w"
  "update_mod w =
     patch_job (path_join (os w) BASE_DIR ''mod.rs'') update_mod_content ''Updated mod.rs'' w"
  by (simp_all add: update_cli_runner_def update_config_def update_hooks_def
        update_prompt_enhancer_def update_mod_def patch_job_def Let_def)

lemma refactor_lengths: "length refactor_jobs = 5" "length (refactor_paths p) = 5"
  by (simp_all add: refactor_jobs_def refactor_paths_def)

lemma refactor_paths_eq:
  "refactor_paths p =
     [path_join p BASE_DIR ''cli_runner.rs'', path_join p BASE_DIR ''config.rs'',
      path_join p BASE_DIR ''hooks.rs'', path_join p BASE_DIR ''prompt_enhancer.rs'',
      path_join p BASE_DIR ''mod.rs'']"
  by (simp add: refactor_paths_def)

lemma refactor_paths_distinct: "distinct (refactor_paths p)"
  by (simp add: refactor_paths_eq path_join_def)

text \<open>Every job of the run is a patch job on its path.\<close>

lemma refactor_job_patch:
  assumes "k < length refactor_jobs"
  shows "\<exists>f l. \<forall>w. (refactor_jobs ! k) w = patch_job (refactor_paths (os w) ! k) f l w"
proof -
  from assms consider "k = 0" | "k = 1" | "k = 2" | "k = 3" | "k = 4"
    by (auto simp: refactor_jobs_def less_Suc_eq numeral_eq_Suc)
  then show ?thesis
  proof cases
    case 1
    then show ?thesis using jobs_patch(1) by (auto simp: refactor_jobs_def refactor_paths_eq)
  next
    case 2
    then show ?thesis using jobs_patch(2) by (auto simp: refactor_jobs_def refactor_paths_eq)
  next
    case 3
    then show ?thesis using jobs_patch(3) by (auto simp: refactor_jobs_def refactor_paths_eq)
  next
    case 4
    then show ?thesis using jobs_patch(4) by (auto simp: refactor_jobs_def refactor_paths_eq)
  next
    case 5
    then show ?thesis using jobs_patch(5) by (auto simp: refactor_jobs_def refactor_paths_eq)
  qed
qed





text \<open>The jobs that completed have each written their file, in the order of the run.\<close>

lemma patch_job_frame: "q \<noteq> p \<Longrightarrow> files (snd (patch_job p f l w)) q = files w q"
  by (simp add: patch_job_def write_file_def print_def split: sum.splits option.splits)











subsection \<open>What the edits leave alone\<close>

lemma set_str_replace:
  "old \<noteq> [] \<Longrightarrow> set (str_replace old new s) \<subseteq> set s \<union> set new"
proof (induction old new s rule: str_replace.induct)
  case (1 old new)
  then show ?case by (simp add: str_replace_Nil)
next
  case (2 old new c cs)
  show ?case
  proof (cases "prefix old (c # cs)")
    case True
    have "set (str_replace old new (drop (length old) (c # cs)))
            \<subseteq> set (drop (length old) (c # cs)) \<union> set new"
      using 2 True by simp
    moreover have "set (drop (length old) (c # cs)) \<subseteq> set (c # cs)" by (rule set_drop_subset)
    ultimately show ?thesis unfolding str_replace_hit[OF "2.prems" True] by auto
  next
    case False
    have "set (str_replace old new cs) \<subseteq> set cs \<union> set new" using 2 False by simp
    then show ?thesis unfolding str_replace_miss[OF "2.prems" False] by auto
  qed
qed

lemma rx_match_suffix: "rx_match rs s = Some t \<Longrightarrow> suffix t s"
proof (induction rs s arbitrary: t rule: rx_match.induct)
  case (1 s)
  then show ?case by simp
next
  case (2 l rs s)
  from "2.prems" have p: "prefix l s" and m: "rx_match rs (drop (length l) s) = Some t"
    by (auto split: if_splits)
  have "suffix t (drop (length l) s)" using "2.IH"[OF p m] .
  then show ?case using suffix_drop suffix_trans2 by blast
next
  case (3 rs s)
  show ?case
  proof (cases "rx_match rs s")
    case (Some u)
    then have "t = u" using "3.prems" by simp
    then show ?thesis using "3.IH"(1)[OF Some] by simp
  next
    case None
    then have "(case s of [] \<Rightarrow> None
                | c # cs \<Rightarrow> if c = CHR ''\<newline>'' then None else rx_match (DotLazy # rs) cs)
               = Some t"
      using "3.prems" by simp
    then obtain c cs where s: "s = c # cs" and c: "c \<noteq> CHR ''\<newline>''"
      and m: "rx_match (DotLazy # rs) cs = Some t"
      by (cases s) (auto split: if_splits simp del: rx_match.simps(3))
    from "3.IH"(2)[OF None s c m] show ?thesis using s by (simp add: suffix_Cons)
  qed
next
  case (4 rs s)
  show ?case
  proof (cases "rx_match rs s")
    case (Some u)
    then have "t = u" using "4.prems" by simp
    then show ?thesis using "4.IH"(1)[OF Some] by simp
  next
    case None
    then have "(case s of [] \<Rightarrow> None | c # cs \<Rightarrow> rx_match (AnyLazy # rs) cs) = Some t"
      using "4.prems" by simp
    then obtain c cs where s: "s = c # cs" and m: "rx_match (AnyLazy # rs) cs = Some t"
      by (cases s) (auto simp del: rx_match.simps(4))
    from "4.IH"(2)[OF None s m] show ?thesis using s by (simp add: suffix_Cons)
  qed
qed

lemma set_re_sub:
  "(\<And>m. set (repl m) \<subseteq> A) \<Longrightarrow> set (re_sub rs repl s) \<subseteq> set s \<union> A"
proof (induction rs repl s rule: re_sub.induct)
  case (1 rs repl)
  then show ?case by simp
next
  case (2 rs repl c cs)
  show ?case
  proof (cases "rx_match rs (c # cs)")
    case None
    have "set (re_sub rs repl cs) \<subseteq> set cs \<union> A" using "2.IH"(1)[OF None] "2.prems" by simp
    then show ?thesis using None by auto
  next
    case (Some t)
    show ?thesis
    proof (cases "length t < length (c # cs)")
      case True
      have "set (re_sub rs repl t) \<subseteq> set t \<union> A" using "2.IH"(2)[OF Some True] "2.prems" by simp
      moreover have "set t \<subseteq> set (c # cs)" using rx_match_suffix[OF Some] by (rule set_mono_suffix)
      moreover have "set (repl (take (length (c # cs) - length t) (c # cs))) \<subseteq> A"
        using "2.prems" by simp
      ultimately have "set (repl (take (length (c # cs) - length t) (c # cs)) @ re_sub rs repl t)
                         \<subseteq> set (c # cs) \<union> A" by auto
      then show ?thesis using Some True by simp
    next
      case False
      have "set (re_sub rs repl cs) \<subseteq> set cs \<union> A" using "2.IH"(3)[OF Some False] "2.prems" by simp
      then show ?thesis using Some False by auto
    qed
  qed
qed

lemma re_sub_absent:
  "\<not> sublist l s \<Longrightarrow> re_sub (Lit l # rs) repl s = s"
proof (induction s)
  case Nil
  then show ?case by simp
next
  case (Cons c cs)
  then have np: "\<not> prefix l (c # cs)" and ns: "\<not> sublist l cs"
    unfolding sublist_Cons_right by blast+
  then show ?case using Cons.IH by simp
qed

lemma cli_facts:
  "cli_import_old \<noteq> []" "cli_call_old \<noteq> []" "cli_flags_old \<noteq> []"
  "CHR 0x0D \<notin> set cli_import_new" "CHR 0x0D \<notin> set cli_call_new" "CHR 0x0D \<notin> set cli_flags_new"
  "cli_wrapper_pattern = Lit cli_wrapper_head # tl cli_wrapper_pattern"
  by (simp_all add: cli_import_old_def cli_call_old_def cli_flags_old_def cli_import_new_def
        cli_call_new_def cli_flags_new_def cli_wrapper_head_def cli_wrapper_pattern_def)

lemma update_cli_runner_content_no_CR:
  assumes "CHR 0x0D \<notin> set c"
  shows "CHR 0x0D \<notin> set (update_cli_runner_content c)"
proof -
  let ?c1 = "str_replace cli_import_old cli_import_new c"
  let ?c2 = "str_replace cli_call_old cli_call_new ?c1"
  let ?c3 = "re_sub cli_wrapper_pattern (\<lambda>_. []) ?c2"
  let ?c4 = "re_sub [Lit cli_flags_old] (\<lambda>_. cli_flags_new) ?c3"
  have 1: "CHR 0x0D \<notin> set ?c1"
    using set_str_replace[OF cli_facts(1), of cli_import_new c] assms cli_facts(4) by blast
  have 2: "CHR 0x0D \<notin> set ?c2"
    using set_str_replace[OF cli_facts(2), of cli_call_new ?c1] 1 cli_facts(5) by blast
  have "set ?c3 \<subseteq> set ?c2 \<union> {}" by (rule set_re_sub) simp
  then have 3: "CHR 0x0D \<notin> set ?c3" using 2 by blast
  have "set ?c4 \<subseteq> set ?c3 \<union> set cli_flags_new" by (rule set_re_sub) simp
  then have 4: "CHR 0x0D \<notin> set ?c4" using 3 cli_facts(6) by blast
  show ?thesis using 4 by (simp add: update_cli_runner_content_def Let_def)
qed

lemma update_cli_runner_content_no_anchor:
  assumes "no_cli_anchor c"
  shows "update_cli_runner_content c = c"
proof -
  have 1: "str_replace cli_import_old cli_import_new c = c"
    using assms by (simp add: no_cli_anchor_def replace_absent[OF cli_facts(1)])
  have 2: "str_replace cli_call_old cli_call_new c = c"
    using assms by (simp add: no_cli_anchor_def replace_absent[OF cli_facts(2)])
  have "re_sub (Lit cli_wrapper_head # tl cli_wrapper_pattern) (\<lambda>_. []) c = c"
    using assms by (simp add: no_cli_anchor_def re_sub_absent)
  then have 3: "re_sub cli_wrapper_pattern (\<lambda>_. []) c = c" using cli_facts(7) by simp
  have 4: "re_sub [Lit cli_flags_old] (\<lambda>_. cli_flags_new) c = c"
    using assms by (simp add: no_cli_anchor_def re_sub_absent)
  show ?thesis by (simp add: update_cli_runner_content_def Let_def 1 2 3 4)
qed

text \<open>One occurrence of the second anchor: the text before and behind it is kept.\<close>

lemma update_cli_runner_content_one_call:
  assumes "\<not> sublist cli_import_old (u @ cli_call_old @ v)"
    and "\<not> sublist cli_call_old (u @ butlast cli_call_old)"
    and "no_cli_anchor (u @ cli_call_new @ v)"
  shows "update_cli_runner_content (u @ cli_call_old @ v) = u @ cli_call_new @ v"
proof -
  have nv: "\<not> sublist cli_call_old v"
  proof
    assume "sublist cli_call_old v"
    moreover have "sublist v (u @ cli_call_new @ v)"
      unfolding sublist_def by (rule exI[of _ "u @ cli_call_new"], rule exI[of _ "[]"]) simp
    ultimately have "sublist cli_call_old (u @ cli_call_new @ v)" by (rule sublist_trans2)
    then show False using assms(3) by (simp add: no_cli_anchor_def)
  qed
  have 1: "str_replace cli_import_old cli_import_new (u @ cli_call_old @ v) = u @ cli_call_old @ v"
    using assms(1) by (rule replace_absent[OF cli_facts(1)])
  have 2: "str_replace cli_call_old cli_call_new (u @ cli_call_old @ v) = u @ cli_call_new @ v"
    using replace_first[OF cli_facts(2) assms(2), of cli_call_new v]
          replace_absent[OF cli_facts(2) nv, of cli_call_new] by simp
  have "re_sub (Lit cli_wrapper_head # tl cli_wrapper_pattern) (\<lambda>_. []) (u @ cli_call_new @ v)
          = u @ cli_call_new @ v"
    using assms(3) by (simp add: no_cli_anchor_def re_sub_absent)
  then have 3: "re_sub cli_wrapper_pattern (\<lambda>_. []) (u @ cli_call_new @ v) = u @ cli_call_new @ v"
    using cli_facts(7) by simp
  have 4: "re_sub [Lit cli_flags_old] (\<lambda>_. cli_flags_new) (u @ cli_call_new @ v) = u @ cli_call_new @ v"
    using assms(3) by (simp add: no_cli_anchor_def re_sub_absent)
  show ?thesis by (simp add: update_cli_runner_content_def Let_def 1 2 3 4)
qed

subsection \<open>The worlds used as concrete inputs\<close>

lemma posix_world_fields:
  "os (posix_world fs) = Posix" "refuse_read (posix_world fs) = (\<lambda>_. None)"
  "refuse_write (posix_world fs) = (\<lambda>_. None)" "stdout_rejects (posix_world fs) = (\<lambda>_. False)"
  "stdout (posix_world fs) = []" "written (posix_world fs) = []" "files (posix_world fs) = fs"
  by (simp_all add: posix_world_def)

section \<open>Claims about the runs\<close>




text \<open>
  C5, as stated, fails: on a \<open>config.rs\<close> that no edit of \<open>update_config\<close> changes
  (the buffer and the stored file stay the same), the file is still opened for writing
  and written.
\<close>

theorem write_only_when_dirty_counterexample:
  "update_config_content (universal_newlines ''fn main() {}\<newline>'')
     = universal_newlines ''fn main() {}\<newline>'' \<and>
   files (snd (update_config world_plain_config)) (path_join Posix BASE_DIR ''config.rs'')
     = files world_plain_config (path_join Posix BASE_DIR ''config.rs'') \<and>
   written (snd (update_config world_plain_config)) = [path_join Posix BASE_DIR ''config.rs'']"
  by code_simp

text \<open>
  C5, amended. A job writes its buffer back whenever it meets no I/O error, whether
  or not the buffer changed. For \<open>update_config\<close> on its path \<open>p\<close>:
  \<^item> when the file could be read (it exists, the operating system opens it and its
    bytes are UTF-8) and can be opened for writing, the job writes \<open>p\<close> and the file
    holds the transformed buffer, every \<open>\n\<close> written as the platform's line
    separator;
  \<^item> when the job meets the I/O error \<open>e\<close> (on reading or decoding, or on opening the
    file for writing), it raises \<open>e\<close> and leaves everything as it was.

  Each of the five jobs of the run writes its path when it meets no I/O error.
\<close>

theorem every_job_writes_back:
  assumes "p = path_join (os w) BASE_DIR ''config.rs''"
  shows "(read_file p w = Inr content \<and> refuse_write w p = None \<longrightarrow>
            written (snd (update_config w)) = written w @ [p] \<and>
            files (snd (update_config w)) p
              = Some (write_newlines (os_linesep (os w)) (update_config_content content))) \<and>
         (io_error p w e \<longrightarrow> update_config w = (Some e, w)) \<and>
         (k < length refactor_jobs \<and> (\<forall>e. \<not> io_error (refactor_paths (os w) ! k) w e) \<longrightarrow>
            written (snd ((refactor_jobs ! k) w)) = written w @ [refactor_paths (os w) ! k])"
proof -
  have a: "written (snd (update_config w)) = written w @ [p] \<and>
           files (snd (update_config w)) p
              = Some (write_newlines (os_linesep (os w)) (update_config_content content))"
    if "read_file p w = Inr content \<and> refuse_write w p = None"
    using that patch_job_writes(1,2)[of p w content update_config_content "''Updated config.rs''"]
    by (simp add: jobs_patch assms)
  have b: "update_config w = (Some e, w)" if "io_error p w e"
    using that patch_job_io_error[of p w e] by (simp add: jobs_patch assms)
  have c: "written (snd ((refactor_jobs ! k) w)) = written w @ [refactor_paths (os w) ! k]"
    if h: "k < length refactor_jobs \<and> (\<forall>e. \<not> io_error (refactor_paths (os w) ! k) w e)"
  proof -
    let ?p = "refactor_paths (os w) ! k"
    obtain f l where patch: "\<And>w. (refactor_jobs ! k) w = patch_job (refactor_paths (os w) ! k) f l w"
      using refactor_job_patch[of k] h by blast
    obtain c where c: "read_file ?p w = Inr c"
      using h by (cases "read_file ?p w") (auto simp: io_error_def)
    have rw: "refuse_write w ?p = None"
      using h c by (cases "refuse_write w ?p") (auto simp: io_error_def)
    show ?thesis using patch_job_writes(1)[OF c rw, of f l] patch[of w] by simp
  qed
  show ?thesis using a b c by blast
qed

text \<open>
  \<open>config.rs\<close> without any anchor is written back as it was; when the operating
  system refuses the write, or the file is missing, the job raises and writes nothing.
\<close>

theorem every_job_writes_back_witness:
  "written (snd (update_config world_plain_config)) = [path_join Posix BASE_DIR ''config.rs''] \<and>
   files (snd (update_config world_plain_config)) (path_join Posix BASE_DIR ''config.rs'')
     = Some ''fn main() {}\<newline>'' \<and>
   update_config world_readonly_config
     = (Some (OSError ''[Errno 13] Permission denied''), world_readonly_config) \<and>
   update_config world_undecodable
     = (Some (FileNotFoundError (path_join Posix BASE_DIR ''config.rs'')), world_undecodable) \<and>
   written (snd ((refactor_jobs ! 1) world_plain_config)) = [path_join Posix BASE_DIR ''config.rs'']"
proof -
  let ?p = "path_join Posix BASE_DIR ''config.rs''"
  have p1: "?p = path_join (os world_plain_config) BASE_DIR ''config.rs''"
    by (simp add: world_plain_config_def posix_world_fields)
  have rd: "read_file ?p world_plain_config = Inr ''fn main() {}\<newline>''" by code_simp
  have rw: "refuse_write world_plain_config ?p = None"
    by (simp add: world_plain_config_def posix_world_fields)
  have w0: "written world_plain_config = []" "os world_plain_config = Posix"
    by (simp_all add: world_plain_config_def posix_world_fields)
  have ev: "write_newlines (os_linesep Posix) (update_config_content ''fn main() {}\<newline>'')
              = ''fn main() {}\<newline>''" by code_simp
  note t1 = every_job_writes_back[OF p1, of "''fn main() {}\<newline>''"]
  have a: "written (snd (update_config world_plain_config)) = [?p] \<and>
           files (snd (update_config world_plain_config)) ?p = Some ''fn main() {}\<newline>''"
    using conjunct1[OF t1] rd rw w0 ev by simp
  have p2: "?p = path_join (os world_readonly_config) BASE_DIR ''config.rs''"
    by (simp add: world_readonly_config_def world_plain_config_def posix_world_fields)
  have i2: "io_error ?p world_readonly_config (OSError ''[Errno 13] Permission denied'')"
    by code_simp
  have b: "update_config world_readonly_config
             = (Some (OSError ''[Errno 13] Permission denied''), world_readonly_config)"
    using conjunct1[OF conjunct2[OF every_job_writes_back[OF p2]]] i2 by blast
  have p3: "?p = path_join (os world_undecodable) BASE_DIR ''config.rs''"
    by (simp add: world_undecodable_def posix_world_fields)
  have i3: "io_error ?p world_undecodable (FileNotFoundError ?p)" by code_simp
  have c: "update_config world_undecodable = (Some (FileNotFoundError ?p), world_undecodable)"
    using conjunct1[OF conjunct2[OF every_job_writes_back[OF p3]]] i3 by blast
  have k: "1 < length refactor_jobs" by (simp add: refactor_lengths)
  have pk: "refactor_paths (os world_plain_config) ! 1 = ?p"
    by (simp add: refactor_paths_eq w0)
  have ne: "\<forall>e. \<not> io_error (refactor_paths (os world_plain_config) ! 1) world_plain_config e"
    unfolding pk by (simp add: io_error_def rd rw)
  have d: "written (snd ((refactor_jobs ! 1) world_plain_config)) = [?p]"
    using conjunct2[OF conjunct2[OF every_job_writes_back[OF p1, of _ _ 1]]] k ne pk w0 by simp
  show ?thesis using a b c d by simp
qed




text \<open>
  C7, as stated, fails: \<open>cli_runner.rs\<close> with one line ending in \<open>\r\n\<close> holds no
  anchor, so the edits touch no span of it, and yet the file written back has lost the
  carriage return.
\<close>

theorem line_endings_counterexample:
  "update_cli_runner_content (universal_newlines crlf_text) = universal_newlines crlf_text \<and>
   files world_crlf (path_join Posix BASE_DIR ''cli_runner.rs'') = Some crlf_text \<and>
   files (snd (update_cli_runner world_crlf)) (path_join Posix BASE_DIR ''cli_runner.rs'')
     = Some ''// a\<newline>// b\<newline>'' \<and>
   crlf_text \<noteq> ''// a\<newline>// b\<newline>''"
  by code_simp

text \<open>
  C7, amended. \<open>update_cli_runner\<close> reads and writes its file \<open>p\<close> in text mode with
  newline translation. For a file with the stored bytes \<open>stored\<close> that the operating
  system opens for reading and for writing:
  \<^item> when the bytes are not UTF-8, the job raises \<open>UnicodeDecodeError\<close> and changes
    nothing;
  \<^item> otherwise the file written back is the transformed buffer of the translated
    text, every \<open>\n\<close> of it written as the platform's line separator;
  \<^item> the translated text holds no carriage return: an \<open>\r\n\<close> of the file has become
    \<open>\n\<close>, and so has an \<open>\r\<close> that no \<open>\n\<close> follows, the text before and behind being
    translated in the same way;
  \<^item> when the translated text holds none of the four anchors, the file written back
    is the translated text with the platform's line separator: its line endings are
    normalised although no edit applies;
  \<^item> on a platform whose line separator is \<open>\n\<close>, the file written back holds no
    carriage return, so a file that held one is changed;
  \<^item> on such a platform a file without carriage return and without anchor is written
    back byte for byte, and a file \<open>u + anchor + v\<close> without carriage return, in which
    the call anchor \<open>resolve_cmd_wrapper_tokio(program)\<close> stands at its first
    occurrence and no other edit applies, is written back as \<open>u + replacement + v\<close>;
  \<^item> no file other than \<open>p\<close> is changed.
\<close>

theorem line_endings_translated:
  assumes "p = path_join (os w) BASE_DIR ''cli_runner.rs''"
    and "files w p = Some stored" and "refuse_read w p = None" and "refuse_write w p = None"
  shows
    "(\<not> decodable stored \<longrightarrow>
        update_cli_runner w = (Some (UnicodeDecodeError (codec_says w stored)), w)) \<and>
     (decodable stored \<longrightarrow>
        files (snd (update_cli_runner w)) p
          = Some (write_newlines (os_linesep (os w))
                    (update_cli_runner_content (universal_newlines stored)))) \<and>
     CHR 0x0D \<notin> set (universal_newlines stored) \<and>
     (stored = a @ CHR 0x0D # CHR ''\<newline>'' # b \<longrightarrow>
        universal_newlines stored = universal_newlines a @ CHR ''\<newline>'' # universal_newlines b) \<and>
     (stored = a @ CHR 0x0D # b \<and> \<not> prefix ''\<newline>'' b \<longrightarrow>
        universal_newlines stored = universal_newlines a @ CHR ''\<newline>'' # universal_newlines b) \<and>
     (decodable stored \<and> no_cli_anchor (universal_newlines stored) \<longrightarrow>
        files (snd (update_cli_runner w)) p
          = Some (write_newlines (os_linesep (os w)) (universal_newlines stored))) \<and>
     (decodable stored \<and> os w = Posix \<longrightarrow>
        (\<exists>out. files (snd (update_cli_runner w)) p = Some out \<and> CHR 0x0D \<notin> set out)) \<and>
     (decodable stored \<and> os w = Posix \<and> CHR 0x0D \<in> set stored \<longrightarrow>
        files (snd (update_cli_runner w)) p \<noteq> Some stored) \<and>
     (decodable stored \<and> os w = Posix \<and> CHR 0x0D \<notin> set stored \<and> no_cli_anchor stored \<longrightarrow>
        files (snd (update_cli_runner w)) p = Some stored) \<and>
     (decodable stored \<and> os w = Posix \<and> CHR 0x0D \<notin> set stored \<and>
      stored = u @ cli_call_old @ v \<and> \<not> sublist cli_import_old stored \<and>
      \<not> sublist cli_call_old (u @ butlast cli_call_old) \<and> no_cli_anchor (u @ cli_call_new @ v) \<longrightarrow>
        files (snd (update_cli_runner w)) p = Some (u @ cli_call_new @ v)) \<and>
     (q \<noteq> p \<longrightarrow> files (snd (update_cli_runner w)) q = files w q)"
proof -
  let ?T = update_cli_runner_content
  let ?out = "files (snd (update_cli_runner w)) p"
  have job: "update_cli_runner w = patch_job p ?T ''Updated cli_runner.rs'' w"
    by (simp add: jobs_patch assms(1))
  have bad: "update_cli_runner w = (Some (UnicodeDecodeError (codec_says w stored)), w)"
    if "\<not> decodable stored"
  proof -
    have "read_file p w = Inl (UnicodeDecodeError (codec_says w stored))"
      using that assms(2,3) by (simp add: read_file_def)
    then show ?thesis unfolding job by (rule patch_job_read_fails)
  qed
  have good: "?out = Some (write_newlines (os_linesep (os w)) (?T (universal_newlines stored)))"
    if "decodable stored"
  proof -
    have "read_file p w = Inr (universal_newlines stored)"
      using that assms(2,3) by (simp add: read_file_def)
    then show ?thesis using patch_job_writes(2)[OF _ assms(4)] unfolding job by simp
  qed
  have nocr: "CHR 0x0D \<notin> set (universal_newlines stored)" by (rule universal_newlines_no_CR)
  have crlf: "universal_newlines stored = universal_newlines a @ CHR ''\<newline>'' # universal_newlines b"
    if "stored = a @ CHR 0x0D # CHR ''\<newline>'' # b"
    using that by (simp add: universal_newlines_crlf)
  have cr: "universal_newlines stored = universal_newlines a @ CHR ''\<newline>'' # universal_newlines b"
    if "stored = a @ CHR 0x0D # b \<and> \<not> prefix ''\<newline>'' b"
  proof -
    have "b = [] \<or> hd b \<noteq> CHR ''\<newline>''" using that by (cases b) auto
    then show ?thesis using that by (simp add: universal_newlines_cr)
  qed
  have plain: "?out = Some (write_newlines (os_linesep (os w)) (universal_newlines stored))"
    if "decodable stored \<and> no_cli_anchor (universal_newlines stored)"
    using that good update_cli_runner_content_no_anchor by simp
  have posix: "?out = Some (?T (universal_newlines stored))" if "decodable stored \<and> os w = Posix"
    using that good by (simp add: write_newlines_id)
  have clean: "\<exists>out. ?out = Some out \<and> CHR 0x0D \<notin> set out" if "decodable stored \<and> os w = Posix"
    using posix[OF that] update_cli_runner_content_no_CR[OF nocr] by simp
  have changed: "?out \<noteq> Some stored" if "decodable stored \<and> os w = Posix \<and> CHR 0x0D \<in> set stored"
    using that clean by auto
  have same: "?out = Some stored"
    if "decodable stored \<and> os w = Posix \<and> CHR 0x0D \<notin> set stored \<and> no_cli_anchor stored"
  proof -
    have "CHR 0x0D \<notin> set stored" using that by blast
    then have n: "universal_newlines stored = stored" by (rule universal_newlines_id)
    have t: "?T stored = stored" using that update_cli_runner_content_no_anchor by blast
    have "decodable stored \<and> os w = Posix" using that by blast
    then have "?out = Some (?T (universal_newlines stored))" by (rule posix)
    then show ?thesis unfolding n t .
  qed
  have one: "?out = Some (u @ cli_call_new @ v)"
    if h: "decodable stored \<and> os w = Posix \<and> CHR 0x0D \<notin> set stored \<and>
        stored = u @ cli_call_old @ v \<and> \<not> sublist cli_import_old stored \<and>
        \<not> sublist cli_call_old (u @ butlast cli_call_old) \<and> no_cli_anchor (u @ cli_call_new @ v)"
  proof -
    have st: "stored = u @ cli_call_old @ v" using h by blast
    have "\<not> sublist cli_import_old stored" using h by blast
    then have h1: "\<not> sublist cli_import_old (u @ cli_call_old @ v)" unfolding st .
    have h2: "\<not> sublist cli_call_old (u @ butlast cli_call_old)" using h by blast
    have h3: "no_cli_anchor (u @ cli_call_new @ v)" using h by blast
    have "?T (u @ cli_call_old @ v) = u @ cli_call_new @ v"
      by (rule update_cli_runner_content_one_call[OF h1 h2 h3])
    then have t: "?T stored = u @ cli_call_new @ v" unfolding st .
    have "CHR 0x0D \<notin> set stored" using h by blast
    then have n: "universal_newlines stored = stored" by (rule universal_newlines_id)
    have "decodable stored \<and> os w = Posix" using h by blast
    then have "?out = Some (?T (universal_newlines stored))" by (rule posix)
    then show ?thesis unfolding n t .
  qed
  have frame: "files (snd (update_cli_runner w)) q = files w q" if "q \<noteq> p"
    unfolding job using that by (rule patch_job_frame)
  show ?thesis using bad good nocr crlf cr plain clean changed same one frame by blast
qed

text \<open>
  The file with one \<open>\r\n\<close> and no anchor is written back with \<open>\n\<close> only; the file
  holding one call anchor is written back with the call replaced and the newline behind
  it kept, and \<open>config.rs\<close> beside it is not touched; the file that is not UTF-8 is not
  written.
\<close>

theorem line_endings_translated_witness:
  "files (snd (update_cli_runner world_crlf)) (path_join Posix BASE_DIR ''cli_runner.rs'')
     = Some ''// a\<newline>// b\<newline>'' \<and>
   files (snd (update_cli_runner world_crlf)) (path_join Posix BASE_DIR ''cli_runner.rs'')
     \<noteq> Some crlf_text \<and>
   universal_newlines crlf_text = ''// a\<newline>// b\<newline>'' \<and>
   files (snd (update_cli_runner world_all_files)) (path_join Posix BASE_DIR ''cli_runner.rs'')
     = Some (cli_call_new @ ''\<newline>'') \<and>
   files (snd (update_cli_runner world_all_files)) (path_join Posix BASE_DIR ''config.rs'')
     = Some (config_flags_old @ ''\<newline>'') \<and>
   written (snd (update_cli_runner world_undecodable)) = []"
proof -
  let ?p = "path_join Posix BASE_DIR ''cli_runner.rs''"
  have p1: "?p = path_join (os world_crlf) BASE_DIR ''cli_runner.rs''"
    and f1: "files world_crlf ?p = Some crlf_text"
    and r1: "refuse_read world_crlf ?p = None" and w1: "refuse_write world_crlf ?p = None"
    and o1: "os world_crlf = Posix"
    by (simp_all add: world_crlf_def posix_world_fields)
  have d1: "decodable crlf_text" by code_simp
  have n1: "no_cli_anchor (universal_newlines crlf_text)" by code_simp
  have c1: "CHR 0x0D \<in> set crlf_text" by (simp add: crlf_text_def)
  have v1: "write_newlines (os_linesep Posix) (universal_newlines crlf_text) = ''// a\<newline>// b\<newline>''"
    by code_simp
  have s1: "crlf_text = ''// a'' @ CHR 0x0D # CHR ''\<newline>'' # ''// b\<newline>''"
    by (simp add: crlf_text_def)
  have u1: "universal_newlines ''// a'' @ CHR ''\<newline>'' # universal_newlines ''// b\<newline>''
              = ''// a\<newline>// b\<newline>''" by simp
  note t1 = line_endings_translated[OF p1 f1 r1 w1, where a = "''// a''" and b = "''// b\<newline>''"]
  have a: "files (snd (update_cli_runner world_crlf)) ?p = Some ''// a\<newline>// b\<newline>''"
    using conjunct1[OF conjunct2[OF conjunct2[OF conjunct2[OF conjunct2[OF conjunct2[OF t1]]]]]]
          d1 n1 o1 v1 by simp
  have b: "files (snd (update_cli_runner world_crlf)) ?p \<noteq> Some crlf_text"
    using conjunct1[OF conjunct2[OF conjunct2[OF conjunct2[OF conjunct2[OF conjunct2[OF conjunct2[OF conjunct2[OF t1]]]]]]]]
          d1 o1 c1 by blast
  have c: "universal_newlines crlf_text = ''// a\<newline>// b\<newline>''"
    using conjunct1[OF conjunct2[OF conjunct2[OF conjunct2[OF t1]]]] s1 u1 by simp
  let ?s = "cli_call_old @ ''\<newline>''"
  have p2: "?p = path_join (os world_all_files) BASE_DIR ''cli_runner.rs''"
    and r2: "refuse_read world_all_files ?p = None" and w2: "refuse_write world_all_files ?p = None"
    and o2: "os world_all_files = Posix"
    by (simp_all add: world_all_files_def posix_world_fields)
  have f2: "files world_all_files ?p = Some ?s" by code_simp
  have d2: "decodable ?s" by code_simp
  have c2: "CHR 0x0D \<notin> set ?s" by (simp add: cli_call_old_def)
  have i2: "\<not> sublist cli_import_old ?s" by code_simp
  have h2: "\<not> sublist cli_call_old ([] @ butlast cli_call_old)" by code_simp
  have n2: "no_cli_anchor ([] @ cli_call_new @ ''\<newline>'')" by code_simp
  have q2: "path_join Posix BASE_DIR ''config.rs'' \<noteq> ?p" by (simp add: path_join_def)
  have g2: "files world_all_files (path_join Posix BASE_DIR ''config.rs'')
              = Some (config_flags_old @ ''\<newline>'')" by code_simp
  note t2 = line_endings_translated[OF p2 f2 r2 w2, where u = "[]" and v = "''\<newline>''"
              and q = "path_join Posix BASE_DIR ''config.rs''"]
  have d: "files (snd (update_cli_runner world_all_files)) ?p = Some (cli_call_new @ ''\<newline>'')"
    using conjunct1[OF conjunct2[OF conjunct2[OF conjunct2[OF conjunct2[OF conjunct2[OF conjunct2[OF conjunct2[OF conjunct2[OF conjunct2[OF t2]]]]]]]]]]
          d2 o2 c2 i2 h2 n2 by simp
  have e: "files (snd (update_cli_runner world_all_files)) (path_join Posix BASE_DIR ''config.rs'')
             = Some (config_flags_old @ ''\<newline>'')"
    using conjunct2[OF conjunct2[OF conjunct2[OF conjunct2[OF conjunct2[OF conjunct2[OF conjunct2[OF conjunct2[OF conjunct2[OF conjunct2[OF t2]]]]]]]]]]
          q2 g2 by simp
  have p3: "?p = path_join (os world_undecodable) BASE_DIR ''cli_runner.rs''"
    and f3: "files world_undecodable ?p = Some [CHR 0xFF]"
    and r3: "refuse_read world_undecodable ?p = None" and w3: "refuse_write world_undecodable ?p = None"
    and x3: "written world_undecodable = []"
    by (simp_all add: world_undecodable_def posix_world_fields)
  have d3: "\<not> decodable [CHR 0xFF]" by code_simp
  have f: "written (snd (update_cli_runner world_undecodable)) = []"
    using conjunct1[OF line_endings_translated[OF p3 f3 r3 w3]] d3 x3 by simp
  show ?thesis using a b c d e f by simp
qed

section \<open>Properties of the boundary-safe slicer\<close>

subsection \<open>Bytes and character boundaries\<close>

lemma sint_byte: "sint (b::byte) = (uint b + 128) mod 256 - 128"
  unfolding sint_uint by (simp add: signed_take_bit_eq_take_bit_shift take_bit_eq_mod)

lemma sint_range_split:
  fixes x :: int
  assumes "0 \<le> x" "x < 256"
  shows "(- 64 \<le> (x + 128) mod 256 - 128) = (x < 128 \<or> 192 \<le> x)"
proof (cases "x < 128")
  case True
  with assms have "(x + 128) mod 256 = x + 128" by simp
  with True assms show ?thesis by simp
next
  case False
  have "x + 128 = (x - 128) + 256" by arith
  then have "(x + 128) mod 256 = ((x - 128) + 256) mod 256" by (simp only:)
  also have "\<dots> = (x - 128) mod 256" by (simp only: mod_add_self2)
  also have "\<dots> = x - 128" using False assms by simp
  finally show ?thesis using False by auto
qed

lemma is_utf8_char_boundary_iff:
  "is_utf8_char_boundary b \<longleftrightarrow> unat b < 128 \<or> 192 \<le> unat b"
proof -
  have 1: "uint b < 256" using uint_lt2p[of b] by simp
  have 2: "0 \<le> uint b" by simp
  have 3: "int (unat b) = uint b" by simp
  show ?thesis
    unfolding is_utf8_char_boundary_def sint_byte sint_range_split[OF 2 1]
    using 3 by linarith
qed

lemmas byte_cmp = word_le_nat_alt word_less_nat_alt word_unat_eq_iff

lemma is_cont_not_boundary: "is_cont b \<Longrightarrow> \<not> is_utf8_char_boundary b"
  by (simp add: is_cont_def is_utf8_char_boundary_iff byte_cmp)

lemma width_pos_boundary: "0 < utf8_char_width b \<Longrightarrow> is_utf8_char_boundary b"
  by (simp add: utf8_char_width_def is_utf8_char_boundary_iff byte_cmp split: if_splits)

lemma second3_cont: "second3 a b \<Longrightarrow> is_cont b \<and> utf8_char_width a = 3"
  by (auto simp: second3_def is_cont_def utf8_char_width_def byte_cmp)

lemma second4_cont: "second4 a b \<Longrightarrow> is_cont b \<and> utf8_char_width a = 4"
  by (auto simp: second4_def is_cont_def utf8_char_width_def byte_cmp)

lemma char_ok_length: "char_ok cs \<Longrightarrow> cs \<noteq> [] \<and> length cs = utf8_char_width (hd cs)"
proof (induction cs rule: char_ok.induct)
  case (1 a)
  then show ?case by (simp add: utf8_char_width_def)
next
  case (2 a b)
  then show ?case by (simp add: utf8_char_width_def byte_cmp)
next
  case (3 a b c)
  then show ?case using second3_cont[of a b] by simp
next
  case (4 a b c d)
  then show ?case using second4_cont[of a b] by simp
qed simp_all

lemma char_ok_tail_cont:
  "char_ok cs \<Longrightarrow> 0 < i \<Longrightarrow> i < length cs \<Longrightarrow> is_cont (cs ! i)"
  by (induction cs rule: char_ok.induct)
     (auto simp: nth_Cons' less_Suc_eq dest: second3_cont second4_cont)

lemma utf8_valid_ConsD:
  assumes "utf8_valid (b # bs)"
  shows "0 < utf8_char_width b" and "utf8_char_width b \<le> Suc (length bs)"
    and "char_ok (take (utf8_char_width b) (b # bs))"
    and "utf8_valid (drop (utf8_char_width b) (b # bs))"
  using assms by (simp_all add: Let_def split: if_splits)

lemma utf8_valid_ConsI:
  assumes "0 < utf8_char_width b" and "utf8_char_width b \<le> Suc (length bs)"
    and "char_ok (take (utf8_char_width b) (b # bs))"
    and "utf8_valid (drop (utf8_char_width b) (b # bs))"
  shows "utf8_valid (b # bs)"
  using assms by (simp add: Let_def)

declare utf8_valid.simps(2) [simp del]

lemma no_boundary_inside:
  assumes v: "utf8_valid (b # bs)" and i: "0 < i" "i < utf8_char_width b"
  shows "\<not> is_char_boundary (b # bs) i"
proof -
  let ?w = "utf8_char_width b"
  have len: "?w \<le> length (b # bs)" using utf8_valid_ConsD(2)[OF v] by simp
  have ok: "char_ok (take ?w (b # bs))" by (rule utf8_valid_ConsD(3)[OF v])
  have "is_cont (take ?w (b # bs) ! i)"
    using char_ok_tail_cont[OF ok i(1)] i(2) len by simp
  then have "is_cont ((b # bs) ! i)" using i(2) by simp
  then have "\<not> is_utf8_char_boundary ((b # bs) ! i)" by (rule is_cont_not_boundary)
  then show ?thesis using i len by (simp add: is_char_boundary_def)
qed

lemma boundary_at_width:
  assumes v: "utf8_valid (b # bs)"
  shows "is_char_boundary (b # bs) (utf8_char_width b)"
proof (cases "length (b # bs) \<le> utf8_char_width b")
  case True
  then show ?thesis using utf8_valid_ConsD(1,2)[OF v] by (simp add: is_char_boundary_def)
next
  case False
  let ?w = "utf8_char_width b"
  from False obtain c cs where d: "drop ?w (b # bs) = c # cs"
    by (cases "drop ?w (b # bs)") auto
  have "utf8_valid (c # cs)" using utf8_valid_ConsD(4)[OF v] d by simp
  then have "is_utf8_char_boundary c" using utf8_valid_ConsD(1) width_pos_boundary by blast
  moreover have "(b # bs) ! ?w = c" using d False
    by (metis hd_drop_conv_nth list.sel(1) not_le)
  ultimately show ?thesis using False utf8_valid_ConsD(1)[OF v]
    by (simp add: is_char_boundary_def)
qed

lemma boundary_drop:
  assumes "is_char_boundary s i" "w \<le> i" "w \<le> length s"
  shows "is_char_boundary (drop w s) (i - w)"
  using assms by (auto simp: is_char_boundary_def split: if_splits)

lemma utf8_valid_char_append:
  assumes "char_ok c" "utf8_valid t"
  shows "utf8_valid (c @ t)"
proof -
  from char_ok_length[OF assms(1)] obtain a c' where c: "c = a # c'" and
    w: "utf8_char_width a = length c" by (cases c) auto
  show ?thesis unfolding c append_Cons
    by (rule utf8_valid_ConsI) (use assms c w in auto)
qed

lemma utf8_valid_take:
  "utf8_valid s \<Longrightarrow> is_char_boundary s i \<Longrightarrow> utf8_valid (take i s)"
proof (induction s arbitrary: i rule: length_induct)
  case (1 s)
  show ?case
  proof (cases s)
    case Nil
    then show ?thesis by simp
  next
    case (Cons b bs)
    let ?w = "utf8_char_width b"
    have v: "utf8_valid (b # bs)" using 1(2) Cons by simp
    note D = utf8_valid_ConsD[OF v]
    consider "i = 0" | "0 < i" "i < ?w" | "?w \<le> i" by linarith
    then show ?thesis
    proof cases
      case 1
      then show ?thesis by simp
    next
      case 2
      then show ?thesis using no_boundary_inside[OF v] "1.prems"(2) Cons by blast
    next
      case 3
      have "is_char_boundary (drop ?w s) (i - ?w)"
        using boundary_drop[OF "1.prems"(2) 3] D(2) Cons by simp
      moreover have "length (drop ?w s) < length s" using D(1) Cons by simp
      moreover have "utf8_valid (drop ?w s)" using D(4) Cons by simp
      ultimately have "utf8_valid (take (i - ?w) (drop ?w s))"
        using "1.IH" by blast
      then have "utf8_valid (take ?w s @ take (i - ?w) (drop ?w s))"
        using utf8_valid_char_append D(3) Cons by simp
      moreover have "take i s = take ?w s @ take (i - ?w) (drop ?w s)"
        using take_add[of ?w "i - ?w" s] 3 by simp
      ultimately show ?thesis by simp
    qed
  qed
qed

lemma scan_back_le: "scan_back s n \<le> n"
  by (induction n) auto

lemma scan_back_boundary: "is_char_boundary s (scan_back s n)"
  by (induction n) (auto simp: is_char_boundary_def)

lemma scan_back_max: "scan_back s n < j \<Longrightarrow> j \<le> n \<Longrightarrow> \<not> is_char_boundary s j"
  by (induction n) (auto simp: le_Suc_eq split: if_splits)

subsection \<open>Decoding the first character\<close>

lemma mod_range:
  fixes n :: nat
  assumes "q * d \<le> n" "n < q * d + d"
  shows "n mod d = n - q * d"
proof -
  have "n = (n - q * d) + q * d" using assms by simp
  then have "n mod d = ((n - q * d) + q * d) mod d" by (simp only:)
  also have "\<dots> = (n - q * d) mod d" by (simp only: mod_mult_self1)
  also have "\<dots> = n - q * d" using assms by simp
  finally show ?thesis .
qed

lemma mod64_cont: "128 \<le> (y::nat) \<Longrightarrow> y \<le> 191 \<Longrightarrow> y mod 64 = y - 128"
  using mod_range[of 2 64 y] by simp

lemma mod32_lead2: "192 \<le> (x::nat) \<Longrightarrow> x \<le> 223 \<Longrightarrow> x mod 32 = x - 192"
  using mod_range[of 6 32 x] by simp

lemma mod32_lead3: "224 \<le> (x::nat) \<Longrightarrow> x \<le> 255 \<Longrightarrow> x mod 32 = x - 224"
  using mod_range[of 7 32 x] by simp

lemma mod8_lead4: "16 \<le> (x::nat) \<Longrightarrow> x \<le> 23 \<Longrightarrow> x mod 8 = x - 16"
  using mod_range[of 2 8 x] by simp

lemma dec2:
  fixes x y :: nat
  assumes "194 \<le> x" "x \<le> 223" "128 \<le> y" "y \<le> 191"
  shows "128 \<le> (x mod 32) * 64 + y mod 64 \<and> (x mod 32) * 64 + y mod 64 < 2048"
proof -
  obtain i where i: "x = 192 + i" using assms(1) le_Suc_ex[of 192 x] by auto
  obtain j where j: "y = 128 + j" using assms(3) le_Suc_ex[of 128 y] by auto
  have a: "x mod 32 = i" using assms i by (simp add: mod32_lead2)
  have b: "y mod 64 = j" using assms j by (simp add: mod64_cont)
  have "2 \<le> i" "i \<le> 31" "j \<le> 63" using assms i j by simp_all
  then show ?thesis unfolding a b by simp
qed

lemma dec3:
  fixes x y z :: nat
  assumes "(x = 224 \<and> 160 \<le> y \<and> y \<le> 191) \<or> (225 \<le> x \<and> x \<le> 236 \<and> 128 \<le> y \<and> y \<le> 191) \<or>
           (x = 237 \<and> 128 \<le> y \<and> y \<le> 159) \<or> (238 \<le> x \<and> x \<le> 239 \<and> 128 \<le> y \<and> y \<le> 191)"
    and "128 \<le> z" "z \<le> 191"
  shows "2048 \<le> (x mod 32) * 4096 + ((y mod 64) * 64 + z mod 64) \<and>
         (x mod 32) * 4096 + ((y mod 64) * 64 + z mod 64) < 65536"
proof -
  have x: "224 \<le> x" "x \<le> 239" and y: "128 \<le> y" "y \<le> 191" using assms(1) by auto
  obtain i where i: "x = 224 + i" using x(1) le_Suc_ex[of 224 x] by auto
  obtain j where j: "y = 128 + j" using y(1) le_Suc_ex[of 128 y] by auto
  obtain k where k: "z = 128 + k" using assms(2) le_Suc_ex[of 128 z] by auto
  have a: "x mod 32 = i" using x i by (simp add: mod32_lead3)
  have b: "y mod 64 = j" using y j by (simp add: mod64_cont)
  have c: "z mod 64 = k" using assms(2,3) k by (simp add: mod64_cont)
  have bounds: "i \<le> 15" "j \<le> 63" "k \<le> 63" using x y assms(3) i j k by simp_all
  have low: "1 \<le> i \<or> 32 \<le> j" using assms(1) i j by auto
  show ?thesis unfolding a b c using bounds low by auto
qed

lemma dec4:
  fixes x y z w :: nat
  assumes "(x = 240 \<and> 144 \<le> y \<and> y \<le> 191) \<or> (241 \<le> x \<and> x \<le> 243 \<and> 128 \<le> y \<and> y \<le> 191) \<or>
           (x = 244 \<and> 128 \<le> y \<and> y \<le> 143)"
    and "128 \<le> z" "z \<le> 191" "128 \<le> w" "w \<le> 191"
  shows "65536 \<le> ((x mod 32) mod 8) * 262144 + (((y mod 64) * 64 + z mod 64) * 64 + w mod 64)"
proof -
  have x: "240 \<le> x" "x \<le> 244" and y: "128 \<le> y" "y \<le> 191" using assms(1) by auto
  obtain i where i: "x = 240 + i" using x(1) le_Suc_ex[of 240 x] by auto
  obtain j where j: "y = 128 + j" using y(1) le_Suc_ex[of 128 y] by auto
  have a: "x mod 32 = 16 + i" using x i by (simp add: mod32_lead3)
  have b: "(16 + i) mod 8 = i" using x i by (simp add: mod8_lead4)
  have c: "y mod 64 = j" using y j by (simp add: mod64_cont)
  have low: "1 \<le> i \<or> 16 \<le> j" using assms(1) i j by auto
  show ?thesis unfolding a b c using low by auto
qed

lemma next_code_point_len:
  "char_ok cs \<Longrightarrow> \<exists>cp. next_code_point (cs @ rest) = Some cp \<and> len_utf8 cp = length cs"
proof (induction cs rule: char_ok.induct)
  case (1 a)
  then show ?case by (simp add: next_code_point_def len_utf8_def byte_cmp)
next
  case (2 a b)
  then have r: "194 \<le> unat a" "unat a \<le> 223" "128 \<le> unat b" "unat b \<le> 191"
    by (simp_all add: is_cont_def byte_cmp)
  from dec2[OF r] r show ?case
    by (simp add: next_code_point_def len_utf8_def byte_cmp Let_def)
next
  case (3 a b c)
  then have r: "(unat a = 224 \<and> 160 \<le> unat b \<and> unat b \<le> 191) \<or>
      (225 \<le> unat a \<and> unat a \<le> 236 \<and> 128 \<le> unat b \<and> unat b \<le> 191) \<or>
      (unat a = 237 \<and> 128 \<le> unat b \<and> unat b \<le> 159) \<or>
      (238 \<le> unat a \<and> unat a \<le> 239 \<and> 128 \<le> unat b \<and> unat b \<le> 191)"
      "128 \<le> unat c" "unat c \<le> 191"
    by (simp_all add: second3_def is_cont_def byte_cmp)
  have x: "224 \<le> unat a" "unat a \<le> 239" using r(1) by auto
  from dec3[OF r] x show ?case
    by (simp add: next_code_point_def len_utf8_def byte_cmp Let_def)
next
  case (4 a b c d)
  then have r: "(unat a = 240 \<and> 144 \<le> unat b \<and> unat b \<le> 191) \<or>
      (241 \<le> unat a \<and> unat a \<le> 243 \<and> 128 \<le> unat b \<and> unat b \<le> 191) \<or>
      (unat a = 244 \<and> 128 \<le> unat b \<and> unat b \<le> 143)"
      "128 \<le> unat c" "unat c \<le> 191" "128 \<le> unat d" "unat d \<le> 191"
    by (simp_all add: second4_def is_cont_def byte_cmp)
  have x: "240 \<le> unat a" "unat a \<le> 244" using r(1) by auto
  from dec4[OF r] x show ?case
    by (simp add: next_code_point_def len_utf8_def byte_cmp Let_def)
qed simp_all

subsection \<open>The three paths of the function\<close>

lemma first_char_facts:
  assumes v: "utf8_valid (b # bs)"
  shows "char_indices_next (b # bs) \<noteq> None"
    and "\<exists>ch. char_indices_next (b # bs) = Some (0, ch) \<and> len_utf8 ch = utf8_char_width b"
    and "slice_to (b # bs) (utf8_char_width b) = Some (take (utf8_char_width b) (b # bs))"
    and "utf8_valid (take (utf8_char_width b) (b # bs))"
    and "length (take (utf8_char_width b) (b # bs)) = utf8_char_width b"
proof -
  let ?w = "utf8_char_width b" and ?s = "b # bs"
  note D = utf8_valid_ConsD[OF v]
  have len: "length (take ?w ?s) = ?w" using D(2) by simp
  from next_code_point_len[OF D(3), of "drop ?w ?s"] len
  obtain cp where cp: "next_code_point ?s = Some cp" "len_utf8 cp = ?w"
    by (metis append_take_drop_id)
  show "char_indices_next ?s \<noteq> None" using cp by (simp add: char_indices_next_def)
  show "\<exists>ch. char_indices_next ?s = Some (0, ch) \<and> len_utf8 ch = ?w"
    using cp by (simp add: char_indices_next_def)
  show "slice_to ?s ?w = Some (take ?w ?s)"
    using boundary_at_width[OF v] by (simp add: slice_to_def)
  show "utf8_valid (take ?w ?s)"
    using utf8_valid_take[OF v boundary_at_width[OF v]] .
  show "length (take ?w ?s) = ?w" by (rule len)
qed

lemma scan_back_zero_width:
  assumes v: "utf8_valid (b # bs)" and z: "scan_back (b # bs) m = 0"
  shows "m < utf8_char_width b"
proof (rule ccontr)
  assume "\<not> m < utf8_char_width b"
  then have "utf8_char_width b \<le> m" by simp
  moreover have "scan_back (b # bs) m < utf8_char_width b"
    using z utf8_valid_ConsD(1)[OF v] by simp
  ultimately have "\<not> is_char_boundary (b # bs) (utf8_char_width b)"
    by (rule scan_back_max[rotated])
  then show False using boundary_at_width[OF v] by simp
qed

lemma scan_back_pos_width:
  assumes v: "utf8_valid (b # bs)" and p: "0 < scan_back (b # bs) m"
  shows "utf8_char_width b \<le> scan_back (b # bs) m"
proof (rule ccontr)
  assume "\<not> utf8_char_width b \<le> scan_back (b # bs) m"
  then have "scan_back (b # bs) m < utf8_char_width b" by simp
  from no_boundary_inside[OF v p this] show False
    using scan_back_boundary by simp
qed

lemma truncate_utf8_safe_cases:
  assumes v: "utf8_valid s"
  shows "truncate_utf8_safe s m =
     Some (if length s \<le> m then s
           else if scan_back s m = 0 then take (first_char_units s) s
           else take (scan_back s m) s)"
proof (cases "length s \<le> m")
  case True
  then show ?thesis by (simp add: truncate_utf8_safe_def)
next
  case False
  then obtain b bs where s: "s = b # bs" by (cases s) auto
  have vb: "utf8_valid (b # bs)" using v s by simp
  show ?thesis
  proof (cases "scan_back s m = 0")
    case True
    from first_char_facts(2)[OF vb] obtain ch where
      ch: "char_indices_next (b # bs) = Some (0, ch)" "len_utf8 ch = utf8_char_width b" by blast
    show ?thesis using False True ch first_char_facts(3)[OF vb] s
      by (simp add: truncate_utf8_safe_def first_char_units_def)
  next
    case nz: False
    have "slice_to s (scan_back s m) = Some (take (scan_back s m) s)"
      using scan_back_boundary by (simp add: slice_to_def)
    then show ?thesis using False nz by (simp add: truncate_utf8_safe_def)
  qed
qed

subsection \<open>Claims about the slicer\<close>

text \<open>
  C2 (truncation safety). For every well-formed buffer \<open>B\<close> and every
  \<open>max_units\<close>, \<open>truncate_utf8_safe\<close> returns (it does not panic), its result is
  well-formed UTF-8, ends on a character boundary of \<open>B\<close>, is a prefix of \<open>B\<close>, and is at most \<open>max_units\<close> bytes long,
  except when the first character of \<open>B\<close> alone is longer than \<open>max_units\<close>: then
  the result is exactly that first character, and its length is the character's.
\<close>

theorem truncate_utf8_safe_safety:
  assumes v: "utf8_valid B"
  shows "\<exists>r. truncate_utf8_safe B max_units = Some r \<and> utf8_valid r \<and>
           is_char_boundary B (length r) \<and> prefix r B \<and>
           (if max_units < first_char_units B
            then r = take (first_char_units B) B \<and> length r = first_char_units B
            else length r \<le> max_units)"
proof (cases B)
  case Nil
  then show ?thesis
    by (simp add: truncate_utf8_safe_def first_char_units_def is_char_boundary_def)
next
  case (Cons b bs)
  have vb: "utf8_valid (b # bs)" using v Cons by simp
  have fw: "first_char_units B = utf8_char_width b" using Cons by (simp add: first_char_units_def)
  note F = first_char_facts[OF vb]
  note D = utf8_valid_ConsD[OF vb]
  have bw: "is_char_boundary B (first_char_units B)"
    using boundary_at_width[OF vb] fw Cons by simp
  have bl: "is_char_boundary B (length B)" by (simp add: is_char_boundary_def)
  consider (fast) "length B \<le> max_units"
    | (first) "\<not> length B \<le> max_units" "scan_back B max_units = 0"
    | (cut) "\<not> length B \<le> max_units" "0 < scan_back B max_units" by auto
  then show ?thesis
  proof cases
    case fast
    have "\<not> max_units < first_char_units B" using fast D(2) fw Cons by simp
    then show ?thesis using fast v bl by (simp add: truncate_utf8_safe_cases[OF v])
  next
    case first
    have "max_units < first_char_units B"
      using scan_back_zero_width[OF vb] first(2) fw Cons by simp
    moreover have "truncate_utf8_safe B max_units = Some (take (first_char_units B) B)"
      using first by (simp add: truncate_utf8_safe_cases[OF v])
    moreover have "utf8_valid (take (first_char_units B) B)" using F(4) fw Cons by simp
    moreover have "length (take (first_char_units B) B) = first_char_units B"
      using F(5) fw Cons by simp
    ultimately show ?thesis using bw by (simp add: take_is_prefix)
  next
    case cut
    have w: "first_char_units B \<le> scan_back B max_units"
      using scan_back_pos_width[OF vb] cut(2) fw Cons by simp
    have le: "scan_back B max_units \<le> max_units" by (rule scan_back_le)
    have "utf8_valid (take (scan_back B max_units) B)"
      using utf8_valid_take[OF v scan_back_boundary] .
    moreover have "length (take (scan_back B max_units) B) = scan_back B max_units"
      using cut(1) le by simp
    moreover have "is_char_boundary B (scan_back B max_units)" by (rule scan_back_boundary)
    ultimately show ?thesis using cut w le
      by (simp add: truncate_utf8_safe_cases[OF v] take_is_prefix)
  qed
qed

theorem truncate_utf8_safe_safety_witness:
  "\<exists>r. truncate_utf8_safe [0x61, 0xF0, 0x9F, 0x98, 0x80, 0x62] 2 = Some r \<and> utf8_valid r \<and>
        is_char_boundary [0x61, 0xF0, 0x9F, 0x98, 0x80, 0x62] (length r) \<and>
        prefix r [0x61, 0xF0, 0x9F, 0x98, 0x80, 0x62] \<and> length r \<le> 2"
proof -
  have h: "utf8_valid [0x61, 0xF0, 0x9F, 0x98, 0x80, 0x62]" by code_simp
  have n: "\<not> 2 < first_char_units [0x61, 0xF0, 0x9F, 0x98, 0x80, 0x62]"
    by (simp add: first_char_units_def utf8_char_width_def)
  show ?thesis using truncate_utf8_safe_safety[OF h, of 2] n by simp
qed

text \<open>
  C8 (fast path). A buffer no longer than \<open>max_units\<close> bytes is returned itself,
  unchanged.
\<close>

theorem truncate_utf8_safe_fast_path:
  "length B \<le> max_units \<Longrightarrow> truncate_utf8_safe B max_units = Some B"
  by (simp add: truncate_utf8_safe_def)

theorem truncate_utf8_safe_fast_path_witness:
  "length [0x61, 0xF0, 0x9F, 0x98, 0x80, 0x62 :: byte] \<le> 6 \<and>
   truncate_utf8_safe [0x61, 0xF0, 0x9F, 0x98, 0x80, 0x62] 6 = Some [0x61, 0xF0, 0x9F, 0x98, 0x80, 0x62]"
proof -
  have h: "length [0x61, 0xF0, 0x9F, 0x98, 0x80, 0x62 :: byte] \<le> 6" by simp
  show ?thesis using h truncate_utf8_safe_fast_path[OF h] by simp
qed

lemma truncate_utf8_safe_first_char:
  assumes v: "utf8_valid B" and ne: "B \<noteq> []"
  shows "\<exists>r. truncate_utf8_safe B max_units = Some r \<and> r \<noteq> [] \<and>
           0 < first_char_units B \<and> prefix (take (first_char_units B) B) r \<and>
           char_indices_next B \<noteq> None"
proof -
  from ne obtain b bs where Cons: "B = b # bs" by (cases B) auto
  have vb: "utf8_valid (b # bs)" using v Cons by simp
  have fw: "first_char_units B = utf8_char_width b" using Cons by (simp add: first_char_units_def)
  note F = first_char_facts[OF vb]
  note D = utf8_valid_ConsD[OF vb]
  have pos: "0 < first_char_units B" using D(1) fw by simp
  have nn: "char_indices_next B \<noteq> None" using F(1) Cons by simp
  consider (fast) "length B \<le> max_units"
    | (first) "\<not> length B \<le> max_units" "scan_back B max_units = 0"
    | (cut) "\<not> length B \<le> max_units" "0 < scan_back B max_units" by auto
  then show ?thesis
  proof cases
    case fast
    then show ?thesis using ne pos nn by (simp add: truncate_utf8_safe_cases[OF v] take_is_prefix)
  next
    case first
    then show ?thesis using ne pos nn by (simp add: truncate_utf8_safe_cases[OF v])
  next
    case cut
    have w: "first_char_units B \<le> scan_back B max_units"
      using scan_back_pos_width[OF vb] cut(2) fw Cons by simp
    have "take (first_char_units B) B = take (first_char_units B) (take (scan_back B max_units) B)"
      using w by (simp add: min_def)
    then have "prefix (take (first_char_units B) B) (take (scan_back B max_units) B)"
      by (metis take_is_prefix)
    then show ?thesis using cut ne pos nn by (simp add: truncate_utf8_safe_cases[OF v])
  qed
qed


text \<open>
  C9 (no empty result). For a non-empty well-formed buffer the result is never empty:
  it starts with the whole first character of \<open>B\<close>. The fallback \<open>unwrap_or("")\<close> is
  dead: past the fast path the buffer is longer than \<open>max_units\<close>, hence not empty,
  and \<open>char_indices().next()\<close> is \<open>Some\<close>; the empty buffer leaves through the fast path.
\<close>

theorem truncate_utf8_safe_nonempty:
  assumes v: "utf8_valid B"
  shows "(max_units < length B \<longrightarrow> char_indices_next B \<noteq> None) \<and>
         (B \<noteq> [] \<longrightarrow>
            (\<exists>r. truncate_utf8_safe B max_units = Some r \<and> r \<noteq> [] \<and>
                 0 < first_char_units B \<and> prefix (take (first_char_units B) B) r))"
proof (cases "B = []")
  case True
  then show ?thesis by simp
next
  case False
  from truncate_utf8_safe_first_char[OF v False, of max_units] show ?thesis
    using False by blast
qed

theorem truncate_utf8_safe_nonempty_witness:
  "char_indices_next [0xF0, 0x9F, 0x98, 0x80] \<noteq> None \<and>
   (\<exists>r. truncate_utf8_safe [0xF0, 0x9F, 0x98, 0x80] 1 = Some r \<and> r \<noteq> [] \<and>
        prefix [0xF0, 0x9F, 0x98, 0x80] r)"
proof -
  have h: "utf8_valid [0xF0, 0x9F, 0x98, 0x80]" by code_simp
  have n: "[0xF0, 0x9F, 0x98, 0x80 :: byte] \<noteq> []" by simp
  have l: "1 < length [0xF0, 0x9F, 0x98, 0x80 :: byte]" by simp
  have f: "take (first_char_units [0xF0, 0x9F, 0x98, 0x80]) [0xF0, 0x9F, 0x98, 0x80 :: byte]
             = [0xF0, 0x9F, 0x98, 0x80]"
    by (simp add: first_char_units_def utf8_char_width_def)
  from truncate_utf8_safe_nonempty[OF h, of 1] n l
  have "char_indices_next [0xF0, 0x9F, 0x98, 0x80] \<noteq> None"
    and "\<exists>r. truncate_utf8_safe [0xF0, 0x9F, 0x98, 0x80] 1 = Some r \<and> r \<noteq> [] \<and>
           0 < first_char_units [0xF0, 0x9F, 0x98, 0x80] \<and>
           prefix (take (first_char_units [0xF0, 0x9F, 0x98, 0x80]) [0xF0, 0x9F, 0x98, 0x80]) r"
    by blast+
  then show ?thesis unfolding f by blast
qed

end
